theory Spec2Isabelle
  imports Main "HOL-Library.AList" "HOL-Library.Multiset" "HOL-Library.Product_Lexorder"
begin

section \<open>Data model\<close>

text \<open>
  The solver of \<^verbatim>\<open>generate.py\<close> works on a \<^verbatim>\<open>Crossword\<close> object and on
  \<^verbatim>\<open>Variable\<close> objects, both imported from \<^verbatim>\<open>crossword.py\<close>. A variable is a slot of
  the grid; it is compared and hashed by its four fields, which is the equality of the
  record below.
\<close>

datatype direction = ACROSS | DOWN

record variable =
  var_i :: nat
  var_j :: nat
  var_direction :: direction
  var_length :: nat

type_synonym word = string

text \<open>
  The puzzle model. The solver reads three attributes of it:
  \<^item> \<open>variables\<close>: the set \<^verbatim>\<open>crossword.variables\<close>, as the list of its elements in
    iteration order (so without repetition);
  \<^item> \<open>overlaps\<close>: the dictionary \<^verbatim>\<open>crossword.overlaps\<close>, keyed by ordered pairs of
    variables. A key that is absent is \<open>None\<close>, a key stored with the value
    \<^verbatim>\<open>None\<close> is \<open>Some None\<close>, and a key stored with the offsets \<^verbatim>\<open>(i, j)\<close> is
    \<open>Some (Some (i, j))\<close>. The offsets are positions in a word, hence naturals;
  \<^item> \<open>words\<close>: the set \<^verbatim>\<open>crossword.words\<close>, again as a list without repetition.
  The table of overlaps is built by \<^verbatim>\<open>crossword.py\<close>; here it is a parameter.
\<close>

record crossword =
  variables :: "variable list"
  overlaps :: "variable \<times> variable \<rightharpoonup> (nat \<times> nat) option"
  words :: "word list"

text \<open>
  Modelled from the spec: the method \<^verbatim>\<open>Crossword.neighbors\<close> is not part of
  \<^verbatim>\<open>generate.py\<close>. The neighbor set of a variable is the set of other variables with
  which it has a defined overlap; it is derived from the overlap relation.
\<close>

definition neighbors :: "crossword \<Rightarrow> variable \<Rightarrow> variable list" where
  "neighbors cw x =
     filter (\<lambda>v. v \<noteq> x \<and> (case overlaps cw (x, v) of Some (Some p) \<Rightarrow> True | _ \<Rightarrow> False))
       (variables cw)"

text \<open>The exceptions that the solver's dictionary, set and string accesses can raise.\<close>

datatype error = KeyError | IndexError | TypeError

text \<open>
  \<^verbatim>\<open>self.domains\<close> is a dictionary from variables to sets of words: an association list
  with one entry per key, each set being the list of its elements in iteration order.
  An assignment is a dictionary from variables to words.
\<close>

type_synonym domains = "(variable \<times> word list) list"

type_synonym assignment = "(variable \<times> word) list"

text \<open>The representation invariant of a dictionary of sets: keys and elements occur once.\<close>

definition wf_domains :: "domains \<Rightarrow> bool" where
  "wf_domains doms \<longleftrightarrow> distinct (map fst doms) \<and> list_all (\<lambda>(v, ws). distinct ws) doms"

text \<open>
  The second dictionary has the keys of the first, in the same order, and each of its
  domains is, as a set of words, a subset of the domain the first one has for that key.
\<close>

definition shrinks_to :: "domains \<Rightarrow> domains \<Rightarrow> bool" where
  "shrinks_to doms doms' \<longleftrightarrow>
     list_all2 (\<lambda>(v, ws) (v', ws'). v' = v \<and> set ws' \<subseteq> set ws) doms doms'"

text \<open>\<^verbatim>\<open>__init__\<close>: every variable starts with a copy of the whole word list.\<close>

definition init_domains :: "crossword \<Rightarrow> domains" where
  "init_domains cw = map (\<lambda>var. (var, words cw)) (variables cw)"

text \<open>\<^verbatim>\<open>self.domains[var].remove(word)\<close>: both the key and the word have to be there.\<close>

definition remove_word :: "variable \<Rightarrow> word \<Rightarrow> domains \<Rightarrow> error + domains" where
  "remove_word var w doms =
     (case map_of doms var of
        None \<Rightarrow> Inl KeyError
      | Some ws \<Rightarrow>
          if w \<in> set ws then Inr (AList.update var (removeAll w ws) doms)
          else Inl KeyError)"

text \<open>Two slots of three cells on separate rows, and a slot crossing the first one.\<close>

definition slot_a :: variable where
  "slot_a = \<lparr>var_i = 0, var_j = 0, var_direction = ACROSS, var_length = 3\<rparr>"

definition slot_b :: variable where
  "slot_b = \<lparr>var_i = 2, var_j = 0, var_direction = ACROSS, var_length = 3\<rparr>"

definition slot_c :: variable where
  "slot_c = \<lparr>var_i = 0, var_j = 1, var_direction = DOWN, var_length = 3\<rparr>"

text \<open>
  Two puzzles over these slots. In \<open>two_rows\<close> the slots \<open>slot_a\<close> and \<open>slot_b\<close>
  do not meet and the word list holds a single word. In \<open>cross\<close> the second letter of
  \<open>slot_a\<close> is the first letter of \<open>slot_c\<close>.
\<close>

definition two_rows :: crossword where
  "two_rows = \<lparr>variables = [slot_a, slot_b],
     overlaps = [(slot_a, slot_b) \<mapsto> None, (slot_b, slot_a) \<mapsto> None],
     words = [''CAT'']\<rparr>"

definition cross :: crossword where
  "cross = \<lparr>variables = [slot_a, slot_c],
     overlaps = [(slot_a, slot_c) \<mapsto> Some (1, 0), (slot_c, slot_a) \<mapsto> Some (0, 1)],
     words = [''CAT'', ''ACE'', ''DOG'']\<rparr>"

section \<open>Node consistency\<close>

text \<open>The inner loop of \<^verbatim>\<open>enforce_node_consistency\<close>: remove each invalid word.\<close>

fun remove_words :: "variable \<Rightarrow> word list \<Rightarrow> domains \<Rightarrow> error + domains" where
  "remove_words var [] doms = Inr doms"
| "remove_words var (w # ws) doms =
     (case remove_word var w doms of
        Inl e \<Rightarrow> Inl e
      | Inr doms' \<Rightarrow> remove_words var ws doms')"

text \<open>The outer loop, over the keys of the dictionary.\<close>

fun node_loop :: "variable list \<Rightarrow> domains \<Rightarrow> error + domains" where
  "node_loop [] doms = Inr doms"
| "node_loop (var # vars) doms =
     (case map_of doms var of
        None \<Rightarrow> Inl KeyError
      | Some ws \<Rightarrow>
          (case remove_words var (filter (\<lambda>w. length w \<noteq> var_length var) ws) doms of
             Inl e \<Rightarrow> Inl e
           | Inr doms' \<Rightarrow> node_loop vars doms'))"

definition enforce_node_consistency :: "domains \<Rightarrow> error + domains" where
  "enforce_node_consistency doms = node_loop (map fst doms) doms"

section \<open>Arc revision\<close>

text \<open>
  The test of \<^verbatim>\<open>revise\<close> on a pair of words:
  \<^verbatim>\<open>i < len(word_x) and j < len(word_y) and word_x[i] == word_y[j]\<close>.
\<close>

definition letters_agree :: "nat \<Rightarrow> nat \<Rightarrow> word \<Rightarrow> word \<Rightarrow> bool" where
  "letters_agree i j word_x word_y \<longleftrightarrow>
     i < length word_x \<and> j < length word_y \<and> word_x ! i = word_y ! j"

text \<open>
  The loop of \<^verbatim>\<open>revise\<close> over the snapshot \<^verbatim>\<open>list(self.domains[x])\<close>. The domain of
  \<open>y\<close> is read from the current dictionary at every iteration, as the source does.
\<close>

fun revise_loop ::
  "nat \<Rightarrow> nat \<Rightarrow> variable \<Rightarrow> variable \<Rightarrow> word list \<Rightarrow> bool \<Rightarrow> domains \<Rightarrow> error + bool \<times> domains"
where
  "revise_loop i j x y [] revised doms = Inr (revised, doms)"
| "revise_loop i j x y (word_x # rest) revised doms =
     (case map_of doms y of
        None \<Rightarrow> Inl KeyError
      | Some dy \<Rightarrow>
          if \<not> list_ex (letters_agree i j word_x) dy then
            (case remove_word x word_x doms of
               Inl e \<Rightarrow> Inl e
             | Inr doms' \<Rightarrow> revise_loop i j x y rest True doms')
          else revise_loop i j x y rest revised doms)"

definition revise :: "crossword \<Rightarrow> domains \<Rightarrow> variable \<Rightarrow> variable \<Rightarrow> error + bool \<times> domains" where
  "revise cw doms x y =
     (case overlaps cw (x, y) of
        None \<Rightarrow> Inl KeyError
      | Some None \<Rightarrow> Inr (False, doms)
      | Some (Some (i, j)) \<Rightarrow>
          (case map_of doms x of
             None \<Rightarrow> Inl KeyError
           | Some dx \<Rightarrow> revise_loop i j x y dx False doms))"

section \<open>AC-3\<close>

text \<open>The total number of candidate words, which every removal decreases.\<close>

definition domains_size :: "domains \<Rightarrow> nat" where
  "domains_size doms = sum_list (map (\<lambda>(v, ws). length ws) doms)"

lemma domains_size_update:
  "map_of doms x = Some ws \<Longrightarrow> length ws' < length ws \<Longrightarrow>
     domains_size (AList.update x ws' doms) < domains_size doms"
  by (induction doms) (auto simp: domains_size_def split: if_splits)

lemma remove_word_size:
  assumes "remove_word x w doms = Inr doms'"
  shows "domains_size doms' < domains_size doms"
proof -
  from assms obtain ws where ws: "map_of doms x = Some ws" "w \<in> set ws"
    and doms': "doms' = AList.update x (removeAll w ws) doms"
    by (auto simp: remove_word_def split: option.splits if_splits)
  have "length (removeAll w ws) < length ws"
    using ws(2) by (simp add: length_removeAll_less)
  then show ?thesis
    using ws(1) doms' by (simp add: domains_size_update)
qed

lemma revise_loop_size:
  "revise_loop i j x y todo revised doms = Inr (r, doms') \<Longrightarrow>
     domains_size doms' \<le> domains_size doms \<and>
     (r \<longrightarrow> revised \<or> domains_size doms' < domains_size doms)"
proof (induction todo arbitrary: revised doms)
  case Nil
  then show ?case by auto
next
  case (Cons w todo)
  from Cons.prems obtain dy where dy: "map_of doms y = Some dy"
    by (auto split: option.splits)
  show ?case
  proof (cases "list_ex (letters_agree i j w) dy")
    case True
    with Cons.prems dy have "revise_loop i j x y todo revised doms = Inr (r, doms')"
      by simp
    then show ?thesis by (rule Cons.IH)
  next
    case False
    with Cons.prems dy obtain d1 where d1: "remove_word x w doms = Inr d1"
      and rest: "revise_loop i j x y todo True d1 = Inr (r, doms')"
      by (auto split: sum.splits)
    from Cons.IH [OF rest] remove_word_size [OF d1] show ?thesis by auto
  qed
qed

lemma revise_size:
  assumes "revise cw doms x y = Inr (r, doms')"
  shows "domains_size doms' \<le> domains_size doms"
    and "r \<Longrightarrow> domains_size doms' < domains_size doms"
  using assms revise_loop_size [of _ _ x y _ False doms r doms']
  by (auto simp: revise_def split: option.splits)

text \<open>
  The worklist loop of \<^verbatim>\<open>ac3\<close>: \<^verbatim>\<open>arcs.pop(0)\<close> takes the head of the list and
  \<^verbatim>\<open>arcs.append\<close> adds at its end. The loop ends because a revision that reports a
  change has removed a word.
\<close>

function ac3_loop ::
  "crossword \<Rightarrow> (variable \<times> variable) list \<Rightarrow> domains \<Rightarrow> error + bool \<times> domains"
where
  "ac3_loop cw [] doms = Inr (True, doms)"
| "ac3_loop cw ((x, y) # arcs) doms =
     (case revise cw doms x y of
        Inl e \<Rightarrow> Inl e
      | Inr (revised, doms') \<Rightarrow>
          if revised then
            (case map_of doms' x of
               None \<Rightarrow> Inl KeyError
             | Some dx \<Rightarrow>
                 if dx = [] then Inr (False, doms')
                 else ac3_loop cw
                   (arcs @ map (\<lambda>z. (z, x)) (filter (\<lambda>z. z \<noteq> y) (neighbors cw x))) doms')
          else ac3_loop cw arcs doms')"
  by pat_completeness auto
termination
proof (relation "measures [\<lambda>(cw, arcs, doms). domains_size doms, \<lambda>(cw, arcs, doms). length arcs]")
  show "wf (measures [\<lambda>(cw, arcs, doms). domains_size doms, \<lambda>(cw, arcs, doms). length arcs])"
    by simp
next
  fix cw x y arcs doms p revised doms' dx
  assume "revise cw doms x y = Inr p" "(revised, doms') = p" "revised"
  then show "((cw, arcs @ map (\<lambda>z. (z, x)) (filter (\<lambda>z. z \<noteq> y) (neighbors cw x)), doms'),
      (cw, (x, y) # arcs, doms)) \<in>
      measures [\<lambda>(cw, arcs, doms). domains_size doms, \<lambda>(cw, arcs, doms). length arcs]"
    using revise_size(2) [of cw doms x y revised doms'] by simp
next
  fix cw x y arcs doms p revised doms'
  assume "revise cw doms x y = Inr p" "(revised, doms') = p" "\<not> revised"
  then show "((cw, arcs, doms'), (cw, (x, y) # arcs, doms)) \<in>
      measures [\<lambda>(cw, arcs, doms). domains_size doms, \<lambda>(cw, arcs, doms). length arcs]"
    using revise_size(1) [of cw doms x y revised doms'] by auto
qed

text \<open>
  \<^verbatim>\<open>ac3\<close>: without a worklist, start from every ordered pair of distinct variables.
\<close>

definition ac3 ::
  "crossword \<Rightarrow> domains \<Rightarrow> (variable \<times> variable) list option \<Rightarrow> error + bool \<times> domains"
where
  "ac3 cw doms arcs =
     ac3_loop cw
       (case arcs of
          None \<Rightarrow> [(x, y). x \<leftarrow> variables cw, y \<leftarrow> variables cw, x \<noteq> y]
        | Some given \<Rightarrow> given)
       doms"

text \<open>
  For the statements about arc consistency: the domain of a variable as a list (empty
  for a variable without an entry), the symmetry of the table of overlaps that the
  puzzle model provides (the overlap of \<open>(y, x)\<close> is that of \<open>(x, y)\<close> with the
  offsets swapped), the arc consistency of \<open>x\<close> with respect to \<open>y\<close>, and the
  invariant of the worklist: an arc between distinct variables is in the worklist or is
  consistent.
\<close>

definition domain_of :: "domains \<Rightarrow> variable \<Rightarrow> word list" where
  "domain_of doms v = (case map_of doms v of None \<Rightarrow> [] | Some ws \<Rightarrow> ws)"

definition symmetric_overlaps :: "crossword \<Rightarrow> bool" where
  "symmetric_overlaps cw \<longleftrightarrow>
     (\<forall>x\<in>set (variables cw). \<forall>y\<in>set (variables cw).
        case overlaps cw (x, y) of
          Some (Some (i, j)) \<Rightarrow> overlaps cw (y, x) = Some (Some (j, i))
        | _ \<Rightarrow> True)"

text \<open>
  The table of overlaps is complete when it has an entry, offsets or \<^verbatim>\<open>None\<close>, for
  every ordered pair of distinct variables.
\<close>

definition complete_overlaps :: "crossword \<Rightarrow> bool" where
  "complete_overlaps cw \<longleftrightarrow>
     (\<forall>x\<in>set (variables cw). \<forall>y\<in>set (variables cw). x \<noteq> y \<longrightarrow> overlaps cw (x, y) \<noteq> None)"

definition supported :: "crossword \<Rightarrow> domains \<Rightarrow> variable \<Rightarrow> variable \<Rightarrow> bool" where
  "supported cw doms x y \<longleftrightarrow>
     (case overlaps cw (x, y) of
        Some (Some (i, j)) \<Rightarrow>
          (\<forall>wx\<in>set (domain_of doms x). \<exists>wy\<in>set (domain_of doms y). letters_agree i j wx wy)
      | _ \<Rightarrow> True)"

definition pending_or_supported :: "crossword \<Rightarrow> (variable \<times> variable) list \<Rightarrow> domains \<Rightarrow> bool" where
  "pending_or_supported cw arcs doms \<longleftrightarrow>
     (\<forall>x\<in>set (variables cw). \<forall>y\<in>set (variables cw).
        x \<noteq> y \<longrightarrow> (x, y) \<in> set arcs \<or> supported cw doms x y)"

section \<open>Consistency of an assignment\<close>

definition assignment_complete :: "crossword \<Rightarrow> assignment \<Rightarrow> bool" where
  "assignment_complete cw a \<longleftrightarrow> set (map fst a) = set (variables cw)"

text \<open>Reading a letter of a word at an offset: out of range, Python raises.\<close>

definition char_at :: "word \<Rightarrow> nat \<Rightarrow> error + char" where
  "char_at w k = (if k < length w then Inr (w ! k) else Inl IndexError)"

text \<open>A \<^verbatim>\<open>for\<close> loop that returns \<^verbatim>\<open>False\<close> at the first element failing a check.\<close>

fun all_checks :: "('a \<Rightarrow> error + bool) \<Rightarrow> 'a list \<Rightarrow> error + bool" where
  "all_checks f [] = Inr True"
| "all_checks f (x # xs) =
     (case f x of
        Inl e \<Rightarrow> Inl e
      | Inr ok \<Rightarrow> if ok then all_checks f xs else Inr False)"

text \<open>
  The body of the double loop of \<^verbatim>\<open>consistent\<close>. \<^verbatim>\<open>overlaps.get\<close> gives
  \<^verbatim>\<open>None\<close> for an absent key, so only a stored pair of offsets is looked at.
\<close>

definition overlap_check :: "crossword \<Rightarrow> variable \<times> word \<Rightarrow> variable \<times> word \<Rightarrow> error + bool" where
  "overlap_check cw p1 p2 =
     (case (p1, p2) of
        ((var1, word1), (var2, word2)) \<Rightarrow>
          if var1 \<noteq> var2 then
            (case overlaps cw (var1, var2) of
               Some (Some (i, j)) \<Rightarrow>
                 (case char_at word1 i of
                    Inl e \<Rightarrow> Inl e
                  | Inr c1 \<Rightarrow>
                      (case char_at word2 j of
                         Inl e \<Rightarrow> Inl e
                       | Inr c2 \<Rightarrow> Inr (c1 = c2)))
             | _ \<Rightarrow> Inr True)
          else Inr True)"

definition consistent :: "crossword \<Rightarrow> assignment \<Rightarrow> error + bool" where
  "consistent cw a =
     (if length (remdups (map snd a)) \<noteq> length (map snd a) then Inr False
      else if list_ex (\<lambda>(var, word). var_length var \<noteq> length word) a then Inr False
      else all_checks (\<lambda>p1. all_checks (overlap_check cw p1) a) a)"

section \<open>Heuristics\<close>

text \<open>A counting loop, and the evaluation of a sort key on every element of a list.\<close>

fun sum_results :: "('a \<Rightarrow> error + nat) \<Rightarrow> 'a list \<Rightarrow> error + nat" where
  "sum_results f [] = Inr 0"
| "sum_results f (x # xs) =
     (case f x of
        Inl e \<Rightarrow> Inl e
      | Inr n \<Rightarrow> (case sum_results f xs of Inl e \<Rightarrow> Inl e | Inr m \<Rightarrow> Inr (n + m)))"

fun map_result :: "('a \<Rightarrow> error + 'b) \<Rightarrow> 'a list \<Rightarrow> error + 'b list" where
  "map_result f [] = Inr []"
| "map_result f (x # xs) =
     (case f x of
        Inl e \<Rightarrow> Inl e
      | Inr k \<Rightarrow> (case map_result f xs of Inl e \<Rightarrow> Inl e | Inr ks \<Rightarrow> Inr (k # ks)))"

text \<open>
  \<^verbatim>\<open>list.sort(key=...)\<close>: the key of every element is computed first, then the list is
  sorted by key, elements of equal key keeping their order.
\<close>

definition sort_by_key :: "('a \<Rightarrow> error + 'k::linorder) \<Rightarrow> 'a list \<Rightarrow> error + 'a list" where
  "sort_by_key key xs =
     (case map_result key xs of
        Inl e \<Rightarrow> Inl e
      | Inr ks \<Rightarrow> Inr (map fst (sort_key snd (zip xs ks))))"

text \<open>
  The innermost test of \<^verbatim>\<open>count_conflicts\<close>:
  \<^verbatim>\<open>value[overlap[0]] != neighbor_value[overlap[1]]\<close>, where \<^verbatim>\<open>overlap\<close> may be
  \<^verbatim>\<open>None\<close>.
\<close>

definition conflict :: "(nat \<times> nat) option \<Rightarrow> word \<Rightarrow> word \<Rightarrow> error + nat" where
  "conflict overlap val neighbor_value =
     (case overlap of
        None \<Rightarrow> Inl TypeError
      | Some (i, j) \<Rightarrow>
          (case char_at val i of
             Inl e \<Rightarrow> Inl e
           | Inr c \<Rightarrow>
               (case char_at neighbor_value j of
                  Inl e \<Rightarrow> Inl e
                | Inr d \<Rightarrow> Inr (if c \<noteq> d then 1 else 0))))"

definition neighbor_conflicts ::
  "crossword \<Rightarrow> domains \<Rightarrow> assignment \<Rightarrow> variable \<Rightarrow> word \<Rightarrow> variable \<Rightarrow> error + nat"
where
  "neighbor_conflicts cw doms a var val neighbor =
     (if map_of a neighbor = None then
        (case overlaps cw (var, neighbor) of
           None \<Rightarrow> Inl KeyError
         | Some overlap \<Rightarrow>
             (case map_of doms neighbor of
                None \<Rightarrow> Inl KeyError
              | Some dn \<Rightarrow> sum_results (conflict overlap val) dn))
      else Inr 0)"

definition count_conflicts ::
  "crossword \<Rightarrow> domains \<Rightarrow> assignment \<Rightarrow> variable \<Rightarrow> word \<Rightarrow> error + nat"
where
  "count_conflicts cw doms a var val =
     sum_results (neighbor_conflicts cw doms a var val) (neighbors cw var)"

definition order_domain_values ::
  "crossword \<Rightarrow> domains \<Rightarrow> variable \<Rightarrow> assignment \<Rightarrow> error + word list"
where
  "order_domain_values cw doms var a =
     (case map_of doms var of
        None \<Rightarrow> Inl KeyError
      | Some dv \<Rightarrow> sort_by_key (count_conflicts cw doms a var) dv)"

text \<open>
  The sort key of \<^verbatim>\<open>select_unassigned_variable\<close>: the size of the domain, then the
  negated number of neighbors; pairs are compared lexicographically.
\<close>

definition selection_key :: "crossword \<Rightarrow> domains \<Rightarrow> variable \<Rightarrow> error + nat \<times> int" where
  "selection_key cw doms var =
     (case map_of doms var of
        None \<Rightarrow> Inl KeyError
      | Some ws \<Rightarrow> Inr (length ws, - int (length (neighbors cw var))))"

definition select_unassigned_variable ::
  "crossword \<Rightarrow> domains \<Rightarrow> assignment \<Rightarrow> error + variable"
where
  "select_unassigned_variable cw doms a =
     (case sort_by_key (selection_key cw doms)
             (filter (\<lambda>var. map_of a var = None) (variables cw)) of
        Inl e \<Rightarrow> Inl e
      | Inr [] \<Rightarrow> Inl IndexError
      | Inr (var # _) \<Rightarrow> Inr var)"

lemma map_result_length: "map_result f xs = Inr ks \<Longrightarrow> length ks = length xs"
  by (induction xs arbitrary: ks) (auto split: sum.splits)

lemma sort_by_key_set:
  assumes "sort_by_key key xs = Inr ys"
  shows "set ys = set xs"
proof -
  from assms obtain ks where ks: "map_result key xs = Inr ks"
    and ys: "ys = map fst (sort_key snd (zip xs ks))"
    by (auto simp: sort_by_key_def split: sum.splits)
  have "set ys = fst ` set (zip xs ks)"
    using ys by simp
  also have "\<dots> = set (map fst (zip xs ks))"
    by simp
  also have "\<dots> = set xs"
    using map_result_length [OF ks] by simp
  finally show ?thesis .
qed

lemma select_unassigned_variable_unassigned:
  assumes "select_unassigned_variable cw doms a = Inr var"
  shows "var \<in> set (variables cw)" and "map_of a var = None"
proof -
  from assms obtain ys where
    ys: "sort_by_key (selection_key cw doms)
           (filter (\<lambda>var. map_of a var = None) (variables cw)) = Inr (var # ys)"
    by (auto simp: select_unassigned_variable_def split: sum.splits list.splits)
  have "var \<in> set (filter (\<lambda>var. map_of a var = None) (variables cw))"
    using sort_by_key_set [OF ys] by auto
  then show "var \<in> set (variables cw)" and "map_of a var = None"
    by auto
qed

text \<open>
  For the statements about the value ordering. A dictionary of domains is node
  consistent when every word has the length of its variable, and the table of
  overlaps is in range when every offset lies within the length of its variable. The
  conflict total of a candidate value is worded as the specification does: over the
  neighbors of the variable that have no entry in the assignment, the sum of the
  numbers of words in the neighbor's domain whose letter at the overlap differs from
  the candidate's.
\<close>

definition node_consistent :: "domains \<Rightarrow> bool" where
  "node_consistent doms \<longleftrightarrow> (\<forall>(v, ws)\<in>set doms. \<forall>w\<in>set ws. length w = var_length v)"

definition offsets_in_range :: "crossword \<Rightarrow> bool" where
  "offsets_in_range cw \<longleftrightarrow>
     (\<forall>x\<in>set (variables cw). \<forall>y\<in>set (variables cw).
        case overlaps cw (x, y) of
          Some (Some (i, j)) \<Rightarrow> i < var_length x \<and> j < var_length y
        | _ \<Rightarrow> True)"

definition disagrees :: "crossword \<Rightarrow> variable \<Rightarrow> variable \<Rightarrow> word \<Rightarrow> word \<Rightarrow> bool" where
  "disagrees cw var neighbor val neighbor_value \<longleftrightarrow>
     (case overlaps cw (var, neighbor) of
        Some (Some (i, j)) \<Rightarrow> val ! i \<noteq> neighbor_value ! j
      | _ \<Rightarrow> False)"

definition conflict_total :: "crossword \<Rightarrow> domains \<Rightarrow> assignment \<Rightarrow> variable \<Rightarrow> word \<Rightarrow> nat" where
  "conflict_total cw doms a var val =
     (\<Sum>neighbor\<leftarrow>filter (\<lambda>n. map_of a n = None) (neighbors cw var).
        length (filter (disagrees cw var neighbor val) (domain_of doms neighbor)))"

section \<open>Backtracking search\<close>

text \<open>
  \<^verbatim>\<open>backtrack\<close> and its loop over the ordered values. The dictionary \<open>a\<close> is passed
  and returned by value: \<^verbatim>\<open>assignment[var] = value\<close> is \<open>AList.update\<close>,
  \<^verbatim>\<open>del assignment[var]\<close> is \<open>AList.delete\<close> (the key has just been stored, so the
  deletion cannot raise), and a call that returns \<^verbatim>\<open>None\<close> has deleted every entry
  it stored. The test \<^verbatim>\<open>if result\<close> holds for a dictionary that is not empty.
\<close>

function backtrack :: "crossword \<Rightarrow> domains \<Rightarrow> assignment \<Rightarrow> error + assignment option"
  and try_values ::
    "crossword \<Rightarrow> domains \<Rightarrow> variable \<Rightarrow> word list \<Rightarrow> assignment \<Rightarrow> error + assignment option"
where
  "backtrack cw doms a =
     (if assignment_complete cw a then Inr (Some a)
      else
        (case select_unassigned_variable cw doms a of
           Inl e \<Rightarrow> Inl e
         | Inr var \<Rightarrow>
             (case order_domain_values cw doms var a of
                Inl e \<Rightarrow> Inl e
              | Inr vals \<Rightarrow> try_values cw doms var vals a)))"
| "try_values cw doms var [] a = Inr None"
| "try_values cw doms var (val # vals) a =
     (case consistent cw a of
        Inl e \<Rightarrow> Inl e
      | Inr ok \<Rightarrow>
          if ok then
            (case backtrack cw doms (AList.update var val a) of
               Inl e \<Rightarrow> Inl e
             | Inr None \<Rightarrow>
                 try_values cw doms var vals (AList.delete var (AList.update var val a))
             | Inr (Some result) \<Rightarrow>
                 if result \<noteq> [] then Inr (Some result)
                 else try_values cw doms var vals (AList.delete var (AList.update var val a)))
          else try_values cw doms var vals a)"
  by pat_completeness auto

text \<open>The number of variables without an entry in the assignment.\<close>

definition unassigned :: "crossword \<Rightarrow> assignment \<Rightarrow> nat" where
  "unassigned cw a = card (set (variables cw) - fst ` set a)"

lemma unassigned_delete_absent:
  "map_of a var = None \<Longrightarrow> unassigned cw (AList.delete var a) = unassigned cw a"
  by (simp add: unassigned_def map_of_eq_None_iff)

lemma unassigned_delete_update:
  "unassigned cw (AList.delete var (AList.delete var (AList.update var val a))) =
     unassigned cw (AList.delete var a)"
  by (simp add: unassigned_def AList.delete_update_same AList.delete_idem)

lemma unassigned_update_less:
  assumes "var \<in> set (variables cw)"
  shows "unassigned cw (AList.update var val a) < unassigned cw (AList.delete var a)"
proof -
  have keys: "fst ` set (AList.delete var a) = fst ` set a - {var}"
    using AList.delete_keys [of var a] by (metis list.set_map set_removeAll)
  have "set (variables cw) - fst ` set (AList.update var val a) \<subset>
      set (variables cw) - fst ` set (AList.delete var a)"
    using assms by (auto simp: AList.dom_update keys)
  then show ?thesis
    unfolding unassigned_def by (intro psubset_card_mono) auto
qed

lemma unassigned_update_le:
  "unassigned cw (AList.update var val a) \<le> unassigned cw (AList.delete var a)"
proof -
  have keys: "fst ` set (AList.delete var a) = fst ` set a - {var}"
    using AList.delete_keys [of var a] by (metis list.set_map set_removeAll)
  have "set (variables cw) - fst ` set (AList.update var val a) \<subseteq>
      set (variables cw) - fst ` set (AList.delete var a)"
    by (auto simp: AList.dom_update keys)
  then show ?thesis
    unfolding unassigned_def by (intro card_mono) auto
qed

definition search_rank ::
  "crossword \<times> domains \<times> assignment + crossword \<times> domains \<times> variable \<times> word list \<times> assignment \<Rightarrow> nat"
where
  "search_rank c =
     (case c of
        Inl (cw, doms, a) \<Rightarrow> unassigned cw a
      | Inr (cw, doms, var, vals, a) \<Rightarrow>
          unassigned cw (AList.delete var a) + (if var \<in> set (variables cw) then 0 else 1))"

definition search_phase ::
  "crossword \<times> domains \<times> assignment + crossword \<times> domains \<times> variable \<times> word list \<times> assignment \<Rightarrow> nat"
where
  "search_phase c =
     (case c of
        Inl (cw, doms, a) \<Rightarrow> 1
      | Inr (cw, doms, var, vals, a) \<Rightarrow> 0)"

definition search_todo ::
  "crossword \<times> domains \<times> assignment + crossword \<times> domains \<times> variable \<times> word list \<times> assignment \<Rightarrow> nat"
where
  "search_todo c =
     (case c of
        Inl (cw, doms, a) \<Rightarrow> 0
      | Inr (cw, doms, var, vals, a) \<Rightarrow> length vals)"

termination backtrack
proof (relation "measures [search_rank, search_phase, search_todo]")
  show "wf (measures [search_rank, search_phase, search_todo])"
    by simp
next
  fix cw doms a var vals
  assume "select_unassigned_variable cw doms a = Inr var"
  then have "var \<in> set (variables cw)" "map_of a var = None"
    by (rule select_unassigned_variable_unassigned)+
  then show "(Inr (cw, doms, var, vals, a), Inl (cw, doms, a)) \<in>
      measures [search_rank, search_phase, search_todo]"
    by (simp add: search_rank_def search_phase_def unassigned_delete_absent)
next
  fix cw doms var val vals a
  show "(Inl (cw, doms, AList.update var val a), Inr (cw, doms, var, val # vals, a)) \<in>
      measures [search_rank, search_phase, search_todo]"
    using unassigned_update_less [of var cw val a] unassigned_update_le [of cw var val a]
    by (auto simp: search_rank_def search_phase_def)
next
  fix cw doms var val vals a
  show "(Inr (cw, doms, var, vals, AList.delete var (AList.update var val a)),
      Inr (cw, doms, var, val # vals, a)) \<in> measures [search_rank, search_phase, search_todo]"
    by (simp add: search_rank_def search_phase_def search_todo_def unassigned_delete_update)
next
  fix cw doms var val vals a
  show "(Inr (cw, doms, var, vals, AList.delete var (AList.update var val a)),
      Inr (cw, doms, var, val # vals, a)) \<in> measures [search_rank, search_phase, search_todo]"
    by (simp add: search_rank_def search_phase_def search_todo_def unassigned_delete_update)
next
  fix cw doms var val vals a
  show "(Inr (cw, doms, var, vals, a), Inr (cw, doms, var, val # vals, a)) \<in>
      measures [search_rank, search_phase, search_todo]"
    by (simp add: search_rank_def search_phase_def search_todo_def)
qed

text \<open>\<^verbatim>\<open>solve\<close>: the answer of \<^verbatim>\<open>ac3\<close> is not looked at.\<close>

definition solve :: "crossword \<Rightarrow> error + assignment option" where
  "solve cw =
     (case enforce_node_consistency (init_domains cw) of
        Inl e \<Rightarrow> Inl e
      | Inr doms1 \<Rightarrow>
          (case ac3 cw doms1 None of
             Inl e \<Rightarrow> Inl e
           | Inr (ok, doms2) \<Rightarrow> backtrack cw doms2 []))"

section \<open>Properties of node consistency\<close>

lemma update_middle:
  "v \<notin> fst ` set pre \<Longrightarrow>
     AList.update v ws' (pre @ (v, ws) # rest) = pre @ (v, ws') # rest"
  by (induction pre) auto

lemma map_of_middle:
  "v \<notin> fst ` set pre \<Longrightarrow> map_of (pre @ (v, ws) # rest) v = Some ws"
  by (induction pre) auto

lemma remove_words_middle:
  assumes "v \<notin> fst ` set pre"
  shows "distinct bad \<Longrightarrow> set bad \<subseteq> set ws \<Longrightarrow>
     remove_words v bad (pre @ (v, ws) # rest) =
       Inr (pre @ (v, filter (\<lambda>w. w \<notin> set bad) ws) # rest)"
proof (induction bad arbitrary: ws)
  case Nil
  then show ?case by simp
next
  case (Cons b bad)
  have step: "remove_word v b (pre @ (v, ws) # rest) = Inr (pre @ (v, removeAll b ws) # rest)"
    using Cons.prems assms map_of_middle [OF assms, of ws rest]
    by (simp add: remove_word_def update_middle del: map_of_append)
  have sub: "set bad \<subseteq> set (removeAll b ws)"
    using Cons.prems by auto
  have "remove_words v bad (pre @ (v, removeAll b ws) # rest) =
      Inr (pre @ (v, filter (\<lambda>w. w \<notin> set bad) (removeAll b ws)) # rest)"
    using Cons.IH [OF _ sub] Cons.prems by simp
  moreover have "filter (\<lambda>w. w \<notin> set bad) (removeAll b ws) = filter (\<lambda>w. w \<notin> set (b # bad)) ws"
    by (induction ws) auto
  ultimately show ?case using step by simp
qed

lemma node_loop_middle:
  "distinct (map fst (pre @ rest)) \<Longrightarrow> list_all (\<lambda>(v, ws). distinct ws) rest \<Longrightarrow>
     node_loop (map fst rest) (pre @ rest) =
       Inr (pre @ map (\<lambda>(v, ws). (v, filter (\<lambda>w. length w = var_length v) ws)) rest)"
proof (induction rest arbitrary: pre)
  case Nil
  then show ?case by simp
next
  case (Cons p rest)
  obtain v ws where p: "p = (v, ws)" by (cases p)
  let ?bad = "filter (\<lambda>w. length w \<noteq> var_length v) ws"
  let ?good = "filter (\<lambda>w. length w = var_length v) ws"
  have notin: "v \<notin> fst ` set pre"
    using Cons.prems(1) p by auto
  have dws: "distinct ws"
    using Cons.prems(2) p by simp
  have "filter (\<lambda>w. w \<notin> set ?bad) ws = ?good"
    by (rule filter_cong) auto
  then have rm: "remove_words v ?bad (pre @ (v, ws) # rest) = Inr (pre @ (v, ?good) # rest)"
    using remove_words_middle [OF notin, of ?bad ws rest] dws by simp
  have "distinct (map fst ((pre @ [(v, ?good)]) @ rest))"
    using Cons.prems(1) p by auto
  moreover have "list_all (\<lambda>(v, ws). distinct ws) rest"
    using Cons.prems(2) by simp
  ultimately have "node_loop (map fst rest) ((pre @ [(v, ?good)]) @ rest) =
      Inr ((pre @ [(v, ?good)]) @
        map (\<lambda>(v, ws). (v, filter (\<lambda>w. length w = var_length v) ws)) rest)"
    by (rule Cons.IH)
  then show ?case
    using rm map_of_middle [OF notin, of ws rest] by (simp add: p del: map_of_append)
qed

lemma enforce_node_consistency_eq:
  assumes "wf_domains doms"
  shows "enforce_node_consistency doms =
    Inr (map (\<lambda>(v, ws). (v, filter (\<lambda>w. length w = var_length v) ws)) doms)"
  using node_loop_middle [of "[]" doms] assms
  by (simp add: enforce_node_consistency_def wf_domains_def)

lemma wf_domains_filtered:
  assumes "wf_domains doms"
  shows "wf_domains (map (\<lambda>(v, ws). (v, filter (P v) ws)) doms)"
proof -
  have "map fst (map (\<lambda>(v, ws). (v, filter (P v) ws)) doms) = map fst doms"
    by (induction doms) auto
  moreover have "list_all (\<lambda>(v, ws). distinct ws) (map (\<lambda>(v, ws). (v, filter (P v) ws)) doms)"
    using assms by (auto simp: wf_domains_def list_all_iff)
  ultimately show ?thesis
    using assms by (simp add: wf_domains_def del: map_map)
qed

text \<open>
  C9. Node consistency is idempotent. On a dictionary of sets it returns without raising,
  leaves in each variable's domain exactly the words whose length is the variable's
  length, and a second run on the result returns the same dictionary.
\<close>

theorem enforce_node_consistency_idempotent:
  assumes "wf_domains doms"
  shows "\<exists>doms'.
      enforce_node_consistency doms = Inr doms' \<and>
      enforce_node_consistency doms' = Inr doms' \<and>
      doms' = map (\<lambda>(v, ws). (v, filter (\<lambda>w. length w = var_length v) ws)) doms"
proof -
  let ?f = "\<lambda>ds. map (\<lambda>(v, ws). (v, filter (\<lambda>w. length w = var_length v) ws)) (ds :: domains)"
  have one: "enforce_node_consistency doms = Inr (?f doms)"
    by (rule enforce_node_consistency_eq [OF assms])
  have "wf_domains (?f doms)"
    by (rule wf_domains_filtered [OF assms])
  then have "enforce_node_consistency (?f doms) = Inr (?f (?f doms))"
    by (rule enforce_node_consistency_eq)
  moreover have "?f (?f doms) = ?f doms"
    by (induction doms) auto
  ultimately show ?thesis
    using one by simp
qed

theorem enforce_node_consistency_idempotent_witness:
  "wf_domains [(slot_a, [''CAT'', ''DOG'', ''AB''])] \<and>
   enforce_node_consistency [(slot_a, [''CAT'', ''DOG'', ''AB''])] = Inr [(slot_a, [''CAT'', ''DOG''])] \<and>
   enforce_node_consistency [(slot_a, [''CAT'', ''DOG''])] = Inr [(slot_a, [''CAT'', ''DOG''])]"
proof -
  have h: "wf_domains [(slot_a, [''CAT'', ''DOG'', ''AB''])]"
    by (simp add: wf_domains_def)
  show ?thesis
    using h enforce_node_consistency_idempotent [OF h] by (simp add: slot_a_def)
qed

section \<open>Properties of arc revision\<close>

lemma remove_word_frame:
  assumes "remove_word x w doms = Inr doms'"
  shows "map fst doms' = map fst doms" and "v \<noteq> x \<Longrightarrow> map_of doms' v = map_of doms v"
proof -
  from assms obtain ws where ws: "map_of doms x = Some ws"
    and doms': "doms' = AList.update x (removeAll w ws) doms"
    by (auto simp: remove_word_def split: option.splits if_splits)
  have "x \<in> set (map fst doms)"
    using ws by (metis map_of_eq_None_iff option.distinct(1) list.set_map)
  then show "map fst doms' = map fst doms"
    by (simp add: doms' AList.update_keys)
  show "v \<noteq> x \<Longrightarrow> map_of doms' v = map_of doms v"
    by (simp add: doms' AList.update_conv')
qed

lemma revise_loop_frame:
  "revise_loop i j x y todo revised doms = Inr (r, doms') \<Longrightarrow>
     map fst doms' = map fst doms \<and> (\<forall>v. v \<noteq> x \<longrightarrow> map_of doms' v = map_of doms v)"
proof (induction todo arbitrary: revised doms)
  case Nil
  then show ?case by simp
next
  case (Cons w todo)
  from Cons.prems obtain dy where dy: "map_of doms y = Some dy"
    by (auto split: option.splits)
  show ?case
  proof (cases "list_ex (letters_agree i j w) dy")
    case True
    with Cons.prems dy have "revise_loop i j x y todo revised doms = Inr (r, doms')"
      by simp
    then show ?thesis by (rule Cons.IH)
  next
    case False
    with Cons.prems dy obtain d1 where d1: "remove_word x w doms = Inr d1"
      and rest: "revise_loop i j x y todo True d1 = Inr (r, doms')"
      by (auto split: sum.splits)
    from Cons.IH [OF rest] remove_word_frame [OF d1] show ?thesis by simp
  qed
qed

lemma revise_keeps_others:
  assumes "revise cw doms x y = Inr (revised, doms')"
  shows "map fst doms' = map fst doms \<and> (\<forall>v. v \<noteq> x \<longrightarrow> map_of doms' v = map_of doms v)"
proof (cases "overlaps cw (x, y)")
  case None
  with assms show ?thesis by (simp add: revise_def)
next
  case (Some ov)
  show ?thesis
  proof (cases ov)
    case None
    with Some assms show ?thesis by (simp add: revise_def)
  next
    case (Some p)
    obtain i j where p: "p = (i, j)" by (cases p)
    from assms \<open>overlaps cw (x, y) = Some ov\<close> Some p
    obtain dx where "revise_loop i j x y dx False doms = Inr (revised, doms')"
      by (auto simp: revise_def split: option.splits)
    then show ?thesis by (rule revise_loop_frame)
  qed
qed

text \<open>
  C10. \<^verbatim>\<open>revise(x, y)\<close> changes the domain of \<open>x\<close> only: when it returns, the
  dictionary has the same keys in the same order and every variable other than \<open>x\<close>
  has the domain it had before. The puzzle model is an argument that \<open>revise\<close> reads
  and does not return.
\<close>

theorem revise_frame:
  assumes "revise cw doms x y = Inr (revised, doms')"
  shows "map fst doms' = map fst doms \<and> (\<forall>v. v \<noteq> x \<longrightarrow> map_of doms' v = map_of doms v)"
  using assms by (rule revise_keeps_others)

theorem revise_frame_witness:
  "revise cross [(slot_a, [''CAT'', ''ACE'', ''DOG'']), (slot_c, [''CAT'', ''ACE'', ''DOG''])]
       slot_a slot_c =
     Inr (True, [(slot_a, [''CAT'', ''ACE'']), (slot_c, [''CAT'', ''ACE'', ''DOG''])]) \<and>
   slot_c \<noteq> slot_a \<and>
   map_of [(slot_a, [''CAT'', ''ACE'']), (slot_c, [''CAT'', ''ACE'', ''DOG''])] slot_c =
   map_of [(slot_a, [''CAT'', ''ACE'', ''DOG'']), (slot_c, [''CAT'', ''ACE'', ''DOG''])] slot_c"
proof -
  have h: "revise cross
      [(slot_a, [''CAT'', ''ACE'', ''DOG'']), (slot_c, [''CAT'', ''ACE'', ''DOG''])]
      slot_a slot_c =
    Inr (True, [(slot_a, [''CAT'', ''ACE'']), (slot_c, [''CAT'', ''ACE'', ''DOG''])])"
    by code_simp
  have ne: "slot_c \<noteq> slot_a"
    by (simp add: slot_a_def slot_c_def)
  show ?thesis
    using h ne revise_frame [OF h] by blast
qed

lemma revise_loop_eq:
  assumes "x \<noteq> y"
  shows "map_of doms x = Some cur \<Longrightarrow> map_of doms y = Some dy \<Longrightarrow> distinct todo \<Longrightarrow>
     set todo \<subseteq> set cur \<Longrightarrow>
     revise_loop i j x y todo revised doms =
       Inr (revised \<or> (\<exists>w\<in>set todo. \<not> (\<exists>wy\<in>set dy. letters_agree i j w wy)),
            AList.update x
              (filter (\<lambda>w. w \<notin> set todo \<or> (\<exists>wy\<in>set dy. letters_agree i j w wy)) cur) doms)"
proof (induction todo arbitrary: revised doms cur)
  case Nil
  then show ?case by (simp add: AList.update_triv)
next
  case (Cons w todo)
  let ?supp = "\<lambda>w. \<exists>wy\<in>set dy. letters_agree i j w wy"
  show ?case
  proof (cases "?supp w")
    case True
    have "revise_loop i j x y todo revised doms =
        Inr (revised \<or> (\<exists>w\<in>set todo. \<not> ?supp w),
             AList.update x (filter (\<lambda>w. w \<notin> set todo \<or> ?supp w) cur) doms)"
      using Cons.prems by (intro Cons.IH) auto
    moreover have "filter (\<lambda>v. v \<notin> set todo \<or> ?supp v) cur =
        filter (\<lambda>v. v \<notin> set (w # todo) \<or> ?supp v) cur"
      using True by (intro filter_cong) auto
    ultimately show ?thesis
      using True Cons.prems(2) by (auto simp: list_ex_iff)
  next
    case False
    let ?d1 = "AList.update x (removeAll w cur) doms"
    have rm: "remove_word x w doms = Inr ?d1"
      using Cons.prems by (simp add: remove_word_def)
    have "revise_loop i j x y todo True ?d1 =
        Inr (True \<or> (\<exists>w\<in>set todo. \<not> ?supp w),
             AList.update x (filter (\<lambda>v. v \<notin> set todo \<or> ?supp v) (removeAll w cur)) ?d1)"
      using Cons.prems assms by (intro Cons.IH) (auto simp: AList.update_conv')
    moreover have "filter (\<lambda>v. v \<notin> set todo \<or> ?supp v) (removeAll w cur) =
        filter (\<lambda>v. v \<notin> set (w # todo) \<or> ?supp v) cur"
      using False by (induction cur) auto
    ultimately show ?thesis
      using False Cons.prems(2) rm by (auto simp: list_ex_iff)
  qed
qed

text \<open>
  C4. For distinct variables \<open>x\<close> and \<open>y\<close> with domains \<open>dx\<close> and \<open>dy\<close>: when the
  overlap of \<open>(x, y)\<close> is \<open>(i, j)\<close>, \<^verbatim>\<open>revise(x, y)\<close> replaces the domain of \<open>x\<close> by
  the words of \<open>dx\<close> that agree with some word of \<open>dy\<close> at these offsets, both
  offsets being in range, and returns \<^verbatim>\<open>True\<close> exactly when some word of \<open>dx\<close> has no
  such partner; when the overlap is \<^verbatim>\<open>None\<close> it returns \<^verbatim>\<open>False\<close> and the
  dictionary is unchanged. No exception is raised in either case.
\<close>

theorem revise_removes_unsupported:
  assumes "x \<noteq> y" and "map_of doms x = Some dx" and "map_of doms y = Some dy"
    and "distinct dx"
  shows "(overlaps cw (x, y) = Some (Some (i, j)) \<longrightarrow>
            revise cw doms x y =
              Inr (\<exists>wx\<in>set dx. \<not> (\<exists>wy\<in>set dy. letters_agree i j wx wy),
                   AList.update x
                     (filter (\<lambda>wx. \<exists>wy\<in>set dy. letters_agree i j wx wy) dx) doms)) \<and>
         (overlaps cw (x, y) = Some None \<longrightarrow> revise cw doms x y = Inr (False, doms))"
proof -
  have "filter (\<lambda>w. w \<notin> set dx \<or> (\<exists>wy\<in>set dy. letters_agree i j w wy)) dx =
      filter (\<lambda>wx. \<exists>wy\<in>set dy. letters_agree i j wx wy) dx"
    by (intro filter_cong) auto
  then show ?thesis
    using revise_loop_eq [OF assms(1-3) assms(4), of i j False] assms(2)
    by (simp add: revise_def)
qed


theorem revise_removes_unsupported_witness:
  "revise cross [(slot_a, [''CAT'', ''ACE'', ''DOG'']), (slot_c, [''CAT'', ''ACE'', ''DOG''])]
       slot_a slot_c =
     Inr (True, [(slot_a, [''CAT'', ''ACE'']), (slot_c, [''CAT'', ''ACE'', ''DOG''])]) \<and>
   revise two_rows [(slot_a, [''CAT'']), (slot_b, [''CAT''])] slot_a slot_b =
     Inr (False, [(slot_a, [''CAT'']), (slot_b, [''CAT''])])"
proof -
  have ne: "slot_a \<noteq> slot_c" "slot_a \<noteq> slot_b"
    by (simp_all add: slot_a_def slot_b_def slot_c_def)
  let ?d = "[(slot_a, [''CAT'', ''ACE'', ''DOG'']), (slot_c, [''CAT'', ''ACE'', ''DOG''])]"
  let ?e = "[(slot_a, [''CAT'']), (slot_b, [''CAT''])]"
  have dx: "map_of ?d slot_a = Some [''CAT'', ''ACE'', ''DOG'']"
    by simp
  have dy: "map_of ?d slot_c = Some [''CAT'', ''ACE'', ''DOG'']"
    using ne by simp
  have di: "distinct [''CAT'', ''ACE'', ''DOG'']"
    by simp
  have ov: "overlaps cross (slot_a, slot_c) = Some (Some (1, 0))"
    using ne by (simp add: cross_def)
  have ex: "map_of ?e slot_a = Some [''CAT'']"
    by simp
  have ey: "map_of ?e slot_b = Some [''CAT'']"
    using ne by simp
  have ei: "distinct [''CAT'']"
    by simp
  have no: "overlaps two_rows (slot_a, slot_b) = Some None"
    using ne by (simp add: two_rows_def)
  have one: "revise cross ?d slot_a slot_c =
      Inr (True, [(slot_a, [''CAT'', ''ACE'']), (slot_c, [''CAT'', ''ACE'', ''DOG''])])"
    using revise_removes_unsupported [OF ne(1) dx dy di, of cross 1 0] ov
    by (simp add: letters_agree_def)
  have two: "revise two_rows ?e slot_a slot_b = Inr (False, ?e)"
    using revise_removes_unsupported [OF ne(2) ex ey ei, of two_rows 0 0] no
    by simp
  show ?thesis
    using one two by simp
qed

section \<open>Domains only shrink\<close>

lemma shrinks_to_refl: "shrinks_to doms doms"
  by (simp add: shrinks_to_def list_all2_refl case_prod_unfold)

lemma shrinks_to_trans:
  assumes "shrinks_to d1 d2" and "shrinks_to d2 d3"
  shows "shrinks_to d1 d3"
  using assms unfolding shrinks_to_def
  by (rule list_all2_trans [rotated]) auto

lemma shrinks_to_update:
  "map_of doms x = Some ws \<Longrightarrow> set ws' \<subseteq> set ws \<Longrightarrow> shrinks_to doms (AList.update x ws' doms)"
proof (induction doms)
  case Nil
  then show ?case by simp
next
  case (Cons p doms)
  obtain v vs where p: "p = (v, vs)" by (cases p)
  show ?case
  proof (cases "v = x")
    case True
    with Cons.prems p have "vs = ws" by simp
    with True p Cons.prems(2) shrinks_to_refl [of doms] show ?thesis
      by (simp add: shrinks_to_def)
  next
    case False
    with Cons p show ?thesis
      by (simp add: shrinks_to_def)
  qed
qed

lemma remove_word_shrinks:
  assumes "remove_word x w doms = Inr doms'"
  shows "shrinks_to doms doms'"
proof -
  from assms obtain ws where ws: "map_of doms x = Some ws"
    and doms': "doms' = AList.update x (removeAll w ws) doms"
    by (auto simp: remove_word_def split: option.splits if_splits)
  show ?thesis
    unfolding doms' using ws by (rule shrinks_to_update) auto
qed

lemma remove_words_shrinks:
  "remove_words x ws doms = Inr doms' \<Longrightarrow> shrinks_to doms doms'"
proof (induction ws arbitrary: doms)
  case Nil
  then show ?case by (simp add: shrinks_to_refl)
next
  case (Cons w ws)
  from Cons.prems obtain d1 where d1: "remove_word x w doms = Inr d1"
    and rest: "remove_words x ws d1 = Inr doms'"
    by (auto split: sum.splits)
  from remove_word_shrinks [OF d1] Cons.IH [OF rest] show ?case
    by (rule shrinks_to_trans)
qed

lemma node_loop_shrinks:
  "node_loop vars doms = Inr doms' \<Longrightarrow> shrinks_to doms doms'"
proof (induction vars arbitrary: doms)
  case Nil
  then show ?case by (simp add: shrinks_to_refl)
next
  case (Cons v vars)
  from Cons.prems obtain ws d1 where
    d1: "remove_words v (filter (\<lambda>w. length w \<noteq> var_length v) ws) doms = Inr d1"
    and rest: "node_loop vars d1 = Inr doms'"
    by (auto split: option.splits sum.splits)
  from remove_words_shrinks [OF d1] Cons.IH [OF rest] show ?case
    by (rule shrinks_to_trans)
qed

lemma revise_loop_shrinks:
  "revise_loop i j x y todo revised doms = Inr (r, doms') \<Longrightarrow> shrinks_to doms doms'"
proof (induction todo arbitrary: revised doms)
  case Nil
  then show ?case by (simp add: shrinks_to_refl)
next
  case (Cons w todo)
  from Cons.prems obtain dy where dy: "map_of doms y = Some dy"
    by (auto split: option.splits)
  show ?case
  proof (cases "list_ex (letters_agree i j w) dy")
    case True
    with Cons.prems dy have "revise_loop i j x y todo revised doms = Inr (r, doms')"
      by simp
    then show ?thesis by (rule Cons.IH)
  next
    case False
    with Cons.prems dy obtain d1 where d1: "remove_word x w doms = Inr d1"
      and rest: "revise_loop i j x y todo True d1 = Inr (r, doms')"
      by (auto split: sum.splits)
    from remove_word_shrinks [OF d1] Cons.IH [OF rest] show ?thesis
      by (rule shrinks_to_trans)
  qed
qed

lemma revise_shrinks:
  assumes "revise cw doms x y = Inr (r, doms')"
  shows "shrinks_to doms doms'"
  using assms revise_loop_shrinks [of _ _ x y _ False doms r doms'] shrinks_to_refl [of doms]
  by (auto simp: revise_def split: option.splits)

lemma ac3_loop_shrinks:
  "ac3_loop cw arcs doms = Inr (ok, doms') \<Longrightarrow> shrinks_to doms doms'"
proof (induction cw arcs doms rule: ac3_loop.induct)
  case (1 cw doms)
  then show ?case by (simp add: shrinks_to_refl)
next
  case (2 cw x y arcs doms)
  from "2.prems" obtain revised d1 where rv: "revise cw doms x y = Inr (revised, d1)"
    by (auto split: sum.splits)
  have s1: "shrinks_to doms d1"
    using rv by (rule revise_shrinks)
  show ?case
  proof (cases revised)
    case True
    with "2.prems" rv obtain dx where dx: "map_of d1 x = Some dx"
      by (auto split: option.splits)
    show ?thesis
    proof (cases "dx = []")
      case True
      with "2.prems" rv \<open>revised\<close> dx have "doms' = d1" by simp
      with s1 show ?thesis by simp
    next
      case False
      with "2.prems" rv \<open>revised\<close> dx
      have run: "ac3_loop cw
          (arcs @ map (\<lambda>z. (z, x)) (filter (\<lambda>z. z \<noteq> y) (neighbors cw x))) d1 = Inr (ok, doms')"
        by simp
      have "shrinks_to d1 doms'"
        using "2.IH"(1) [OF rv refl \<open>revised\<close> dx False run] .
      with s1 show ?thesis by (rule shrinks_to_trans)
    qed
  next
    case False
    with "2.prems" rv have run: "ac3_loop cw arcs d1 = Inr (ok, doms')"
      by simp
    have "shrinks_to d1 doms'"
      using "2.IH"(2) [OF rv refl False run] .
    with s1 show ?thesis by (rule shrinks_to_trans)
  qed
qed

text \<open>
  C6. The three operations that change \<^verbatim>\<open>self.domains\<close>, which are
  \<^verbatim>\<open>enforce_node_consistency\<close>, \<^verbatim>\<open>revise\<close> and \<^verbatim>\<open>ac3\<close> (with or without a given
  worklist, whatever it answers), leave for every variable a domain that is a subset of
  the domain it had before; no key is added or dropped. The other operations of the
  solver (\<^verbatim>\<open>consistent\<close>, \<^verbatim>\<open>order_domain_values\<close>, \<^verbatim>\<open>select_unassigned_variable\<close>,
  \<^verbatim>\<open>backtrack\<close>) only read the domains: they take the dictionary and do not return
  one.
\<close>

theorem domains_only_shrink:
  "(enforce_node_consistency doms = Inr doms' \<longrightarrow> shrinks_to doms doms') \<and>
   (revise cw doms x y = Inr (revised, doms') \<longrightarrow> shrinks_to doms doms') \<and>
   (ac3 cw doms arcs = Inr (ok, doms') \<longrightarrow> shrinks_to doms doms')"
  using node_loop_shrinks [of "map fst doms" doms doms'] revise_shrinks [of cw doms x y revised doms']
    ac3_loop_shrinks [of cw _ doms ok doms']
  by (auto simp: enforce_node_consistency_def ac3_def)

theorem domains_only_shrink_witness:
  "enforce_node_consistency [(slot_a, [''CAT'', ''DOG'', ''AB''])] =
     Inr [(slot_a, [''CAT'', ''DOG''])] \<and>
   shrinks_to [(slot_a, [''CAT'', ''DOG'', ''AB''])] [(slot_a, [''CAT'', ''DOG''])] \<and>
   revise cross [(slot_a, [''CAT'', ''ACE'', ''DOG'']), (slot_c, [''CAT'', ''ACE'', ''DOG''])]
       slot_a slot_c =
     Inr (True, [(slot_a, [''CAT'', ''ACE'']), (slot_c, [''CAT'', ''ACE'', ''DOG''])]) \<and>
   shrinks_to [(slot_a, [''CAT'', ''ACE'', ''DOG'']), (slot_c, [''CAT'', ''ACE'', ''DOG''])]
     [(slot_a, [''CAT'', ''ACE'']), (slot_c, [''CAT'', ''ACE'', ''DOG''])] \<and>
   ac3 cross (init_domains cross) None =
     Inr (True, [(slot_a, [''CAT'', ''ACE'']), (slot_c, [''CAT'', ''ACE''])]) \<and>
   shrinks_to (init_domains cross) [(slot_a, [''CAT'', ''ACE'']), (slot_c, [''CAT'', ''ACE''])]"
proof -
  have h1: "enforce_node_consistency [(slot_a, [''CAT'', ''DOG'', ''AB''])] =
      Inr [(slot_a, [''CAT'', ''DOG''])]"
    by code_simp
  have h2: "revise cross
      [(slot_a, [''CAT'', ''ACE'', ''DOG'']), (slot_c, [''CAT'', ''ACE'', ''DOG''])]
      slot_a slot_c =
    Inr (True, [(slot_a, [''CAT'', ''ACE'']), (slot_c, [''CAT'', ''ACE'', ''DOG''])])"
    by code_simp
  have h3: "ac3 cross (init_domains cross) None =
      Inr (True, [(slot_a, [''CAT'', ''ACE'']), (slot_c, [''CAT'', ''ACE''])])"
    by code_simp
  show ?thesis
    using h1 h2 h3
      domains_only_shrink [where doms = "[(slot_a, [''CAT'', ''DOG'', ''AB''])]"
        and doms' = "[(slot_a, [''CAT'', ''DOG''])]"]
      domains_only_shrink [where cw = cross
        and doms = "[(slot_a, [''CAT'', ''ACE'', ''DOG'']), (slot_c, [''CAT'', ''ACE'', ''DOG''])]"
        and doms' = "[(slot_a, [''CAT'', ''ACE'']), (slot_c, [''CAT'', ''ACE'', ''DOG''])]"
        and x = slot_a and y = slot_c and revised = True]
      domains_only_shrink [where cw = cross and doms = "init_domains cross"
        and doms' = "[(slot_a, [''CAT'', ''ACE'']), (slot_c, [''CAT'', ''ACE''])]"
        and arcs = None and ok = True]
    by blast
qed

section \<open>Soundness of AC-3\<close>

lemma revise_loop_flag:
  "revise_loop i j x y todo revised doms = Inr (r, doms') \<Longrightarrow>
     (revised \<longrightarrow> r) \<and> (\<not> r \<longrightarrow> doms' = doms)"
proof (induction todo arbitrary: revised doms)
  case Nil
  then show ?case by auto
next
  case (Cons w todo)
  from Cons.prems obtain dy where dy: "map_of doms y = Some dy"
    by (auto split: option.splits)
  show ?case
  proof (cases "list_ex (letters_agree i j w) dy")
    case True
    with Cons.prems dy have "revise_loop i j x y todo revised doms = Inr (r, doms')"
      by simp
    then show ?thesis by (rule Cons.IH)
  next
    case False
    with Cons.prems dy obtain d1 where
      rest: "revise_loop i j x y todo True d1 = Inr (r, doms')"
      by (auto split: sum.splits)
    from Cons.IH [OF rest] show ?thesis by simp
  qed
qed

lemma remove_word_domain_of:
  assumes "remove_word x w doms = Inr doms'"
  shows "set (domain_of doms' x) = set (domain_of doms x) - {w}"
    and "v \<noteq> x \<Longrightarrow> domain_of doms' v = domain_of doms v"
proof -
  from assms obtain ws where ws: "map_of doms x = Some ws"
    and doms': "doms' = AList.update x (removeAll w ws) doms"
    by (auto simp: remove_word_def split: option.splits if_splits)
  show "set (domain_of doms' x) = set (domain_of doms x) - {w}"
    using ws by (simp add: doms' domain_of_def AList.update_conv')
  show "v \<noteq> x \<Longrightarrow> domain_of doms' v = domain_of doms v"
    by (simp add: doms' domain_of_def AList.update_conv')
qed

lemma revise_loop_set:
  assumes "x \<noteq> y"
  shows "revise_loop i j x y todo revised doms = Inr (r, doms') \<Longrightarrow>
     set (domain_of doms' x) =
       set (domain_of doms x) -
         {w \<in> set todo. \<not> (\<exists>wy\<in>set (domain_of doms y). letters_agree i j w wy)}"
proof (induction todo arbitrary: revised doms)
  case Nil
  then show ?case by auto
next
  case (Cons w todo)
  from Cons.prems obtain dy where dy: "map_of doms y = Some dy"
    by (auto split: option.splits)
  then have dom_y: "domain_of doms y = dy"
    by (simp add: domain_of_def)
  show ?case
  proof (cases "list_ex (letters_agree i j w) dy")
    case True
    with Cons.prems dy have "revise_loop i j x y todo revised doms = Inr (r, doms')"
      by simp
    from Cons.IH [OF this] True dom_y show ?thesis
      by (auto simp: list_ex_iff)
  next
    case False
    with Cons.prems dy obtain d1 where d1: "remove_word x w doms = Inr d1"
      and rest: "revise_loop i j x y todo True d1 = Inr (r, doms')"
      by (auto split: sum.splits)
    have "domain_of d1 y = dy"
      using remove_word_domain_of(2) [OF d1, of y] assms dom_y by simp
    with Cons.IH [OF rest] remove_word_domain_of(1) [OF d1] False dom_y show ?thesis
      by (auto simp: list_ex_iff)
  qed
qed

lemma revise_unrevised:
  assumes "revise cw doms x y = Inr (False, doms')"
  shows "doms' = doms"
  using assms revise_loop_flag [of _ _ x y _ False doms False doms']
  by (auto simp: revise_def split: option.splits)

lemma revise_domain_others:
  assumes "revise cw doms x y = Inr (r, doms')" and "v \<noteq> x"
  shows "domain_of doms' v = domain_of doms v"
  using revise_keeps_others [OF assms(1)] assms(2) by (simp add: domain_of_def)

lemma revise_domain_x:
  assumes "x \<noteq> y" and "revise cw doms x y = Inr (r, doms')"
    and "overlaps cw (x, y) = Some (Some (i, j))"
  shows "set (domain_of doms' x) =
    {w \<in> set (domain_of doms x). \<exists>wy\<in>set (domain_of doms y). letters_agree i j w wy}"
proof -
  from assms(2,3) obtain dx where dx: "map_of doms x = Some dx"
    and run: "revise_loop i j x y dx False doms = Inr (r, doms')"
    by (auto simp: revise_def split: option.splits)
  have "domain_of doms x = dx"
    using dx by (simp add: domain_of_def)
  with revise_loop_set [OF assms(1) run] show ?thesis
    by auto
qed

lemma revise_domain_subset:
  assumes "revise cw doms x y = Inr (r, doms')"
  shows "set (domain_of doms' v) \<subseteq> set (domain_of doms v)"
proof -
  have "shrinks_to doms doms'"
    using assms by (rule revise_shrinks)
  then have "list_all2 (\<lambda>p q. fst q = fst p \<and> set (snd q) \<subseteq> set (snd p)) doms doms'"
    by (simp add: shrinks_to_def case_prod_unfold)
  then show ?thesis
    unfolding domain_of_def
    by (induction doms doms' rule: list_all2_induct) auto
qed

lemma revise_supported:
  assumes "x \<noteq> y" and "revise cw doms x y = Inr (r, doms')"
  shows "supported cw doms' x y"
proof (cases "overlaps cw (x, y)")
  case None
  then show ?thesis by (simp add: supported_def)
next
  case (Some ov)
  show ?thesis
  proof (cases ov)
    case None
    with Some show ?thesis by (simp add: supported_def)
  next
    case inner: (Some p)
    obtain i j where p: "p = (i, j)" by (cases p)
    have ov: "overlaps cw (x, y) = Some (Some (i, j))"
      using Some inner p by simp
    have "domain_of doms' y = domain_of doms y"
      using assms by (intro revise_domain_others [OF assms(2)]) auto
    with revise_domain_x [OF assms ov] show ?thesis
      by (auto simp: supported_def ov)
  qed
qed

lemma letters_agree_swap: "letters_agree i j w v \<longleftrightarrow> letters_agree j i v w"
  by (auto simp: letters_agree_def)

lemma step_revised:
  assumes sym: "symmetric_overlaps cw" and ne: "x \<noteq> y"
    and inv: "pending_or_supported cw ((x, y) # arcs) doms"
    and rv: "revise cw doms x y = Inr (r, d1)"
  shows "pending_or_supported cw
    (arcs @ map (\<lambda>z. (z, x)) (filter (\<lambda>z. z \<noteq> y) (neighbors cw x))) d1"
  unfolding pending_or_supported_def
proof (intro ballI impI)
  fix a b
  assume a: "a \<in> set (variables cw)" and b: "b \<in> set (variables cw)" and ab: "a \<noteq> b"
  let ?arcs' = "arcs @ map (\<lambda>z. (z, x)) (filter (\<lambda>z. z \<noteq> y) (neighbors cw x))"
  from inv a b ab consider "(a, b) = (x, y)" | "(a, b) \<in> set arcs" | "supported cw doms a b"
    by (auto simp: pending_or_supported_def)
  then show "(a, b) \<in> set ?arcs' \<or> supported cw d1 a b"
  proof cases
    case 1
    with revise_supported [OF ne rv] show ?thesis by simp
  next
    case 2
    then show ?thesis by simp
  next
    case 3
    show ?thesis
    proof (cases "b = x")
      case False
      have "domain_of d1 b = domain_of doms b"
        using rv False by (rule revise_domain_others)
      moreover have "set (domain_of d1 a) \<subseteq> set (domain_of doms a)"
        using rv by (rule revise_domain_subset)
      ultimately have "supported cw d1 a b"
        using 3 by (auto simp: supported_def split: option.splits)
      then show ?thesis by simp
    next
      case True
      show ?thesis
      proof (cases "\<exists>i j. overlaps cw (a, x) = Some (Some (i, j))")
        case False
        then have "supported cw d1 a b"
          using True by (auto simp: supported_def split: option.splits)
        then show ?thesis by simp
      next
        case ex: True
        then obtain i j where ax: "overlaps cw (a, x) = Some (Some (i, j))"
          by blast
        have xa: "overlaps cw (x, a) = Some (Some (j, i))"
          using sym a b True ax by (fastforce simp: symmetric_overlaps_def)
        show ?thesis
        proof (cases "a = y")
          case False
          have "a \<in> set (neighbors cw x)"
            using a ab True xa by (simp add: neighbors_def)
          with False True show ?thesis by simp
        next
          case ay: True
          have dy: "domain_of d1 y = domain_of doms y"
            using rv ne by (intro revise_domain_others [OF rv]) auto
          have dx: "set (domain_of d1 x) =
              {w \<in> set (domain_of doms x). \<exists>wy\<in>set (domain_of doms y). letters_agree j i w wy}"
            using revise_domain_x [OF ne rv] xa ay by simp
          have "supported cw d1 y x"
            unfolding supported_def
          proof (simp add: ax [unfolded ay] dy, intro ballI)
            fix wy
            assume wy: "wy \<in> set (domain_of doms y)"
            with 3 True ay ax obtain wx where wx: "wx \<in> set (domain_of doms x)"
              and agree: "letters_agree i j wy wx"
              by (auto simp: supported_def)
            have "letters_agree j i wx wy"
              using agree by (simp add: letters_agree_swap [of j i])
            with wx wy have "wx \<in> set (domain_of d1 x)"
              unfolding dx by blast
            with agree show "\<exists>wx\<in>set (domain_of d1 x). letters_agree i j wy wx"
              by blast
          qed
          with True ay show ?thesis by simp
        qed
      qed
    qed
  qed
qed

lemma step_unrevised:
  assumes ne: "x \<noteq> y"
    and inv: "pending_or_supported cw ((x, y) # arcs) doms"
    and rv: "revise cw doms x y = Inr (False, d1)"
  shows "pending_or_supported cw arcs d1"
proof -
  have same: "d1 = doms"
    using rv by (rule revise_unrevised)
  have "supported cw doms x y"
    using revise_supported [OF ne rv] same by simp
  with inv show ?thesis
    unfolding pending_or_supported_def same by auto
qed

lemma ac3_loop_sound:
  assumes sym: "symmetric_overlaps cw"
  shows "list_all (\<lambda>(a, b). a \<noteq> b) arcs \<Longrightarrow> pending_or_supported cw arcs doms \<Longrightarrow>
     ac3_loop cw arcs doms = Inr (True, doms') \<Longrightarrow> pending_or_supported cw [] doms'"
  using sym
proof (induction cw arcs doms rule: ac3_loop.induct)
  case (1 cw doms)
  then show ?case by simp
next
  case (2 cw x y arcs doms)
  have ne: "x \<noteq> y" and rest_ne: "list_all (\<lambda>(a, b). a \<noteq> b) arcs"
    using "2.prems"(1) by simp_all
  from "2.prems"(3) obtain revised d1 where rv: "revise cw doms x y = Inr (revised, d1)"
    by (auto split: sum.splits)
  show ?case
  proof (cases revised)
    case True
    with "2.prems"(3) rv obtain dx where dx: "map_of d1 x = Some dx"
      by (auto split: option.splits)
    have nonempty: "dx \<noteq> []"
      using "2.prems"(3) rv True dx by (auto split: if_splits)
    let ?arcs' = "arcs @ map (\<lambda>z. (z, x)) (filter (\<lambda>z. z \<noteq> y) (neighbors cw x))"
    have run: "ac3_loop cw ?arcs' d1 = Inr (True, doms')"
      using "2.prems"(3) rv True dx nonempty by simp
    have "list_all (\<lambda>(a, b). a \<noteq> b) ?arcs'"
      using rest_ne by (auto simp: list_all_iff neighbors_def)
    moreover have "pending_or_supported cw ?arcs' d1"
      using "2.prems"(4) ne "2.prems"(2) rv by (rule step_revised)
    ultimately show ?thesis
      using "2.IH"(1) [OF rv refl True dx nonempty _ _ run "2.prems"(4)] by blast
  next
    case False
    with "2.prems"(3) rv have run: "ac3_loop cw arcs d1 = Inr (True, doms')"
      by simp
    have "revise cw doms x y = Inr (False, d1)"
      using rv False by simp
    with ne "2.prems"(2) have "pending_or_supported cw arcs d1"
      by (rule step_unrevised)
    then show ?thesis
      using "2.IH"(2) [OF rv refl False rest_ne _ run "2.prems"(4)] by blast
  qed
qed

text \<open>
  C5 (amended). When \<^verbatim>\<open>ac3\<close> is called without a worklist, so that it starts from
  every ordered pair of distinct variables, on a puzzle whose table of overlaps is
  symmetric, and returns \<^verbatim>\<open>True\<close>, then for every variable \<open>x\<close>, every neighbor
  \<open>y\<close> of \<open>x\<close> and every word left in the domain of \<open>x\<close>, the overlap of
  \<open>(x, y)\<close> is defined and some word of the domain of \<open>y\<close> agrees with it at the
  offsets of that overlap.
\<close>

theorem ac3_sound:
  assumes "symmetric_overlaps cw" and "ac3 cw doms None = Inr (True, doms')"
  shows "\<forall>x\<in>set (variables cw). \<forall>y\<in>set (neighbors cw x). \<forall>wx\<in>set (domain_of doms' x).
    \<exists>i j. overlaps cw (x, y) = Some (Some (i, j)) \<and>
      (\<exists>wy\<in>set (domain_of doms' y). letters_agree i j wx wy)"
proof (intro ballI)
  fix x y wx
  assume x: "x \<in> set (variables cw)" and y: "y \<in> set (neighbors cw x)"
    and wx: "wx \<in> set (domain_of doms' x)"
  let ?all = "[(x, y). x \<leftarrow> variables cw, y \<leftarrow> variables cw, x \<noteq> y]"
  have "list_all (\<lambda>(a, b). a \<noteq> b) ?all"
    by (auto simp: list_all_iff)
  moreover have "pending_or_supported cw ?all doms"
    by (auto simp: pending_or_supported_def)
  moreover have "ac3_loop cw ?all doms = Inr (True, doms')"
    using assms(2) by (simp add: ac3_def)
  ultimately have final: "pending_or_supported cw [] doms'"
    by (rule ac3_loop_sound [OF assms(1)])
  from y have yv: "y \<in> set (variables cw)" and yx: "y \<noteq> x"
    and "\<exists>p. overlaps cw (x, y) = Some (Some p)"
    by (auto simp: neighbors_def split: option.splits)
  then obtain i j where ov: "overlaps cw (x, y) = Some (Some (i, j))"
    by auto
  from final x yv yx have "supported cw doms' x y"
    by (auto simp: pending_or_supported_def)
  with ov wx show "\<exists>i j. overlaps cw (x, y) = Some (Some (i, j)) \<and>
      (\<exists>wy\<in>set (domain_of doms' y). letters_agree i j wx wy)"
    by (auto simp: supported_def)
qed

theorem ac3_sound_witness:
  "symmetric_overlaps cross \<and>
   ac3 cross (init_domains cross) None =
     Inr (True, [(slot_a, [''CAT'', ''ACE'']), (slot_c, [''CAT'', ''ACE''])]) \<and>
   slot_a \<in> set (variables cross) \<and> slot_c \<in> set (neighbors cross slot_a) \<and>
   ''CAT'' \<in> set (domain_of [(slot_a, [''CAT'', ''ACE'']), (slot_c, [''CAT'', ''ACE''])] slot_a) \<and>
   (\<exists>i j. overlaps cross (slot_a, slot_c) = Some (Some (i, j)) \<and>
      (\<exists>wy\<in>set (domain_of [(slot_a, [''CAT'', ''ACE'']), (slot_c, [''CAT'', ''ACE''])] slot_c).
         letters_agree i j ''CAT'' wy))"
proof -
  let ?d = "[(slot_a, [''CAT'', ''ACE'']), (slot_c, [''CAT'', ''ACE''])]"
  have h1: "symmetric_overlaps cross"
    by code_simp
  have h2: "ac3 cross (init_domains cross) None = Inr (True, ?d)"
    by code_simp
  have x: "slot_a \<in> set (variables cross)"
    by code_simp
  have y: "slot_c \<in> set (neighbors cross slot_a)"
    by code_simp
  have w: "''CAT'' \<in> set (domain_of ?d slot_a)"
    by code_simp
  show ?thesis
    using h1 h2 x y w ac3_sound [OF h1 h2] by blast
qed

text \<open>
  C5 as stated does not hold for a call with a worklist: started with the single arc
  \<open>(slot_c, slot_a)\<close> on the full domains of \<open>cross\<close>, \<^verbatim>\<open>ac3\<close> returns \<^verbatim>\<open>True\<close>
  and leaves DOG in the domain of \<open>slot_a\<close>, though no word left for its neighbor
  \<open>slot_c\<close> starts with the letter O.
\<close>

theorem ac3_given_worklist_counterexample:
  "ac3 cross (init_domains cross) (Some [(slot_c, slot_a)]) =
     Inr (True, [(slot_a, [''CAT'', ''ACE'', ''DOG'']), (slot_c, [''CAT'', ''ACE''])]) \<and>
   slot_a \<in> set (variables cross) \<and>
   slot_c \<in> set (neighbors cross slot_a) \<and>
   overlaps cross (slot_a, slot_c) = Some (Some (1, 0)) \<and>
   ''DOG'' \<in> set (domain_of [(slot_a, [''CAT'', ''ACE'', ''DOG'']), (slot_c, [''CAT'', ''ACE''])]
     slot_a) \<and>
   \<not> list_ex (letters_agree 1 0 ''DOG'')
     (domain_of [(slot_a, [''CAT'', ''ACE'', ''DOG'']), (slot_c, [''CAT'', ''ACE''])] slot_c)"
  by code_simp

section \<open>Variable selection\<close>

lemma map_result_total:
  "\<forall>x\<in>set xs. f x = Inr (g x) \<Longrightarrow> map_result f xs = Inr (map g xs)"
  by (induction xs) auto

lemma map_result_keys:
  "map_result f xs = Inr ks \<Longrightarrow> \<forall>p\<in>set (zip xs ks). f (fst p) = Inr (snd p)"
proof (induction xs arbitrary: ks)
  case Nil
  then show ?case by simp
next
  case (Cons x xs)
  from Cons.prems obtain k ks' where k: "f x = Inr k" and ks': "map_result f xs = Inr ks'"
    and ks: "ks = k # ks'"
    by (auto split: sum.splits)
  from Cons.IH [OF ks'] k ks show ?case by simp
qed

lemma sort_by_key_head:
  assumes "sort_by_key key xs = Inr (y # ys)"
  shows "\<exists>k. key y = Inr k \<and> (\<forall>x\<in>set xs. \<exists>k'. key x = Inr k' \<and> k \<le> k')"
proof -
  from assms obtain ks where ks: "map_result key xs = Inr ks"
    and sorted_eq: "y # ys = map fst (sort_key snd (zip xs ks))"
    by (auto simp: sort_by_key_def split: sum.splits)
  obtain p zs where zs: "sort_key snd (zip xs ks) = p # zs" and y: "y = fst p"
    using sorted_eq by (cases "sort_key snd (zip xs ks)") auto
  have keys: "\<forall>q\<in>set (zip xs ks). key (fst q) = Inr (snd q)"
    using ks by (rule map_result_keys)
  have in_set: "set (zip xs ks) = set (p # zs)"
    unfolding zs [symmetric] by simp
  have "sorted (map snd (p # zs))"
    unfolding zs [symmetric] by (rule sorted_sort_key)
  then have least: "\<forall>q\<in>set zs. snd p \<le> snd q"
    by simp
  have "p \<in> set (zip xs ks)"
    unfolding in_set by simp
  with keys have "key (fst p) = Inr (snd p)"
    by blast
  then have "key y = Inr (snd p)"
    by (simp add: y)
  moreover have "\<exists>k'. key x = Inr k' \<and> snd p \<le> k'" if xin: "x \<in> set xs" for x
  proof -
    have len: "length xs = length ks"
      using map_result_length [OF ks] by simp
    obtain k' where mem: "(x, k') \<in> set (zip xs ks)"
      using in_set_impl_in_set_zip1 [OF len xin] by blast
    with keys have "key (fst (x, k')) = Inr (snd (x, k'))"
      by blast
    then have kx: "key x = Inr k'"
      by simp
    from mem have "(x, k') = p \<or> (x, k') \<in> set zs"
      unfolding in_set by simp
    then have "snd p \<le> k'"
    proof
      assume "(x, k') = p"
      then show ?thesis by auto
    next
      assume "(x, k') \<in> set zs"
      with least have "snd p \<le> snd (x, k')" by blast
      then show ?thesis by simp
    qed
    with kx show ?thesis by blast
  qed
  ultimately show ?thesis by blast
qed

lemma sort_by_key_total:
  assumes "\<forall>x\<in>set xs. key x = Inr (g x)"
  shows "\<exists>ys. sort_by_key key xs = Inr ys \<and> length ys = length xs"
  using map_result_total [OF assms] by (simp add: sort_by_key_def)

lemma select_minimal:
  assumes "\<forall>v\<in>set (variables cw). map_of doms v \<noteq> None"
    and "\<exists>v\<in>set (variables cw). map_of a v = None"
  shows "\<exists>var. select_unassigned_variable cw doms a = Inr var \<and>
    var \<in> set (variables cw) \<and> map_of a var = None \<and>
    (\<forall>u\<in>set (variables cw). map_of a u = None \<longrightarrow>
       length (domain_of doms var) \<le> length (domain_of doms u) \<and>
       (length (domain_of doms u) = length (domain_of doms var) \<longrightarrow>
          length (neighbors cw u) \<le> length (neighbors cw var)))"
proof -
  let ?xs = "filter (\<lambda>var. map_of a var = None) (variables cw)"
  let ?g = "\<lambda>v. (length (domain_of doms v), - int (length (neighbors cw v)))"
  have key: "\<forall>x\<in>set ?xs. selection_key cw doms x = Inr (?g x)"
    using assms(1) by (auto simp: selection_key_def domain_of_def)
  from sort_by_key_total [OF key] obtain ys where
    ys: "sort_by_key (selection_key cw doms) ?xs = Inr ys" and len: "length ys = length ?xs"
    by blast
  have "?xs \<noteq> []"
    using assms(2) by (auto simp: filter_empty_conv)
  with len obtain var rest where ys_eq: "ys = var # rest"
    by (cases ys) auto
  have sel: "select_unassigned_variable cw doms a = Inr var"
    using ys ys_eq by (simp add: select_unassigned_variable_def)
  have var: "var \<in> set (variables cw)" "map_of a var = None"
    using sel by (rule select_unassigned_variable_unassigned)+
  from sort_by_key_head [OF ys [unfolded ys_eq]] obtain k where
    k: "selection_key cw doms var = Inr k"
    and least: "\<forall>x\<in>set ?xs. \<exists>k'. selection_key cw doms x = Inr k' \<and> k \<le> k'"
    by blast
  have kv: "k = ?g var"
    using k key var by auto
  have "length (domain_of doms var) \<le> length (domain_of doms u) \<and>
       (length (domain_of doms u) = length (domain_of doms var) \<longrightarrow>
          length (neighbors cw u) \<le> length (neighbors cw var))"
    if "u \<in> set (variables cw)" and "map_of a u = None" for u
  proof -
    from that have u: "u \<in> set ?xs" by simp
    with least key have "?g var \<le> ?g u"
      unfolding kv by fastforce
    then show ?thesis by auto
  qed
  with sel var show ?thesis by blast
qed


text \<open>
  C7. When every variable has a domain and some variable has no entry in the
  assignment, \<^verbatim>\<open>select_unassigned_variable\<close> returns a variable without an entry whose
  domain is the smallest among the variables without an entry, and whose number of
  neighbors is the largest among those of them that have a domain of that size.
\<close>

theorem select_unassigned_variable_minimal:
  assumes "\<forall>v\<in>set (variables cw). map_of doms v \<noteq> None"
    and "\<exists>v\<in>set (variables cw). map_of a v = None"
  shows "\<exists>var. select_unassigned_variable cw doms a = Inr var \<and>
    var \<in> set (variables cw) \<and> map_of a var = None \<and>
    (\<forall>u\<in>set (variables cw). map_of a u = None \<longrightarrow>
       length (domain_of doms var) \<le> length (domain_of doms u) \<and>
       (length (domain_of doms u) = length (domain_of doms var) \<longrightarrow>
          length (neighbors cw u) \<le> length (neighbors cw var)))"
  using assms by (rule select_minimal)

theorem select_unassigned_variable_minimal_witness:
  "list_all (\<lambda>v. map_of [(slot_a, [''CAT'', ''ACE'']), (slot_c, [''ACE''])] v \<noteq> None)
     (variables cross) \<and>
   list_ex (\<lambda>v. map_of ([] :: assignment) v = None) (variables cross) \<and>
   select_unassigned_variable cross [(slot_a, [''CAT'', ''ACE'']), (slot_c, [''ACE''])] [] =
     Inr slot_c \<and>
   length (domain_of [(slot_a, [''CAT'', ''ACE'']), (slot_c, [''ACE''])] slot_c) \<le>
     length (domain_of [(slot_a, [''CAT'', ''ACE'']), (slot_c, [''ACE''])] slot_a)"
proof -
  let ?d = "[(slot_a, [''CAT'', ''ACE'']), (slot_c, [''ACE''])]"
  have l1: "list_all (\<lambda>v. map_of ?d v \<noteq> None) (variables cross)"
    by code_simp
  have l2: "list_ex (\<lambda>v. map_of ([] :: assignment) v = None) (variables cross)"
    by code_simp
  have h1: "\<forall>v\<in>set (variables cross). map_of ?d v \<noteq> None"
    using l1 by (simp add: list_all_iff)
  have h2: "\<exists>v\<in>set (variables cross). map_of ([] :: assignment) v = None"
    using l2 by (simp add: list_ex_iff)
  have sel: "select_unassigned_variable cross ?d [] = Inr slot_c"
    by code_simp
  have a: "slot_a \<in> set (variables cross)"
    by (simp add: cross_def)
  from select_unassigned_variable_minimal [OF h1 h2] sel a
  have "length (domain_of ?d slot_c) \<le> length (domain_of ?d slot_a)"
    by auto
  with l1 l2 sel show ?thesis by blast
qed

section \<open>Value ordering\<close>

lemma sum_results_eq:
  "sum_results f xs = Inr k \<Longrightarrow> (\<And>x n. x \<in> set xs \<Longrightarrow> f x = Inr n \<Longrightarrow> n = g x) \<Longrightarrow>
     k = sum_list (map g xs)"
proof (induction xs arbitrary: k)
  case Nil
  then show ?case by simp
next
  case (Cons x xs)
  from Cons.prems(1) obtain n m where n: "f x = Inr n" and m: "sum_results f xs = Inr m"
    and k: "k = n + m"
    by (auto split: sum.splits)
  have "n = g x"
    using Cons.prems(2) n by simp
  moreover have "m = sum_list (map g xs)"
    using m Cons.prems(2) by (intro Cons.IH) auto
  ultimately show ?case using k by simp
qed

lemma sum_results_ex:
  "\<forall>x\<in>set xs. \<exists>n. f x = Inr n \<Longrightarrow> \<exists>k. sum_results f xs = Inr k"
  by (induction xs) auto

lemma conflict_pair:
  "sum_results (conflict (Some (i, j)) val) dn = Inr k \<Longrightarrow>
     k = length (filter (\<lambda>nv. val ! i \<noteq> nv ! j) dn)"
proof (induction dn arbitrary: k)
  case Nil
  then show ?case by simp
next
  case (Cons nv dn)
  from Cons.prems obtain n m where n: "conflict (Some (i, j)) val nv = Inr n"
    and m: "sum_results (conflict (Some (i, j)) val) dn = Inr m" and k: "k = n + m"
    by (auto split: sum.splits)
  have "n = (if val ! i \<noteq> nv ! j then 1 else 0)"
    using n by (auto simp: conflict_def char_at_def split: if_splits)
  with Cons.IH [OF m] k show ?case by simp
qed

lemma conflict_none:
  "sum_results (conflict None val) dn = Inr k \<Longrightarrow> dn = [] \<and> k = 0"
  by (cases dn) (auto simp: conflict_def)

lemma neighbor_conflicts_value:
  assumes "neighbor_conflicts cw doms a var val n = Inr k"
  shows "k = (if map_of a n = None
              then length (filter (disagrees cw var n val) (domain_of doms n)) else 0)"
proof (cases "map_of a n = None")
  case False
  with assms show ?thesis by (auto simp: neighbor_conflicts_def)
next
  case True
  with assms obtain ov dn where ov: "overlaps cw (var, n) = Some ov"
    and dn: "map_of doms n = Some dn"
    and run: "sum_results (conflict ov val) dn = Inr k"
    by (auto simp: neighbor_conflicts_def split: option.splits)
  have dom: "domain_of doms n = dn"
    using dn by (simp add: domain_of_def)
  show ?thesis
  proof (cases ov)
    case None
    with run have "dn = [] \<and> k = 0" by (simp add: conflict_none)
    with True dom show ?thesis by simp
  next
    case (Some p)
    obtain i j where p: "p = (i, j)" by (cases p)
    have "disagrees cw var n val = (\<lambda>nv. val ! i \<noteq> nv ! j)"
      using ov Some p by (auto simp: disagrees_def)
    with conflict_pair [of i j val dn k] run Some p True dom show ?thesis
      by simp
  qed
qed

lemma count_conflicts_value:
  assumes "count_conflicts cw doms a var val = Inr k"
  shows "k = conflict_total cw doms a var val"
proof -
  let ?g = "\<lambda>n. if map_of a n = None
      then length (filter (disagrees cw var n val) (domain_of doms n)) else 0"
  have "k = sum_list (map ?g (neighbors cw var))"
    using assms unfolding count_conflicts_def
    by (rule sum_results_eq) (rule neighbor_conflicts_value)
  also have "\<dots> = conflict_total cw doms a var val"
    unfolding conflict_total_def by (simp add: sum_list_map_filter')
  finally show ?thesis .
qed

lemma count_conflicts_total:
  assumes var: "var \<in> set (variables cw)"
    and keys: "\<forall>v\<in>set (variables cw). map_of doms v \<noteq> None"
    and nc: "node_consistent doms" and rng: "offsets_in_range cw"
    and val: "val \<in> set (domain_of doms var)"
  shows "\<exists>k. count_conflicts cw doms a var val = Inr k"
  unfolding count_conflicts_def
proof (rule sum_results_ex, rule ballI)
  fix n
  assume n: "n \<in> set (neighbors cw var)"
  then have nv: "n \<in> set (variables cw)"
    and "\<exists>p. overlaps cw (var, n) = Some (Some p)"
    by (auto simp: neighbors_def split: option.splits)
  then obtain i j where ov: "overlaps cw (var, n) = Some (Some (i, j))"
    by auto
  have ij: "i < var_length var" "j < var_length n"
    using rng var nv ov by (fastforce simp: offsets_in_range_def)+
  have len: "length w = var_length v" if "w \<in> set (domain_of doms v)" for v w
  proof -
    from that obtain ws where ws: "map_of doms v = Some ws" and w: "w \<in> set ws"
      by (cases "map_of doms v") (auto simp: domain_of_def)
    from ws have "(v, ws) \<in> set doms" by (rule map_of_SomeD)
    with nc w show ?thesis by (auto simp: node_consistent_def)
  qed
  from keys nv obtain dn where dn: "map_of doms n = Some dn"
    by auto
  have "\<forall>x\<in>set dn. \<exists>m. conflict (Some (i, j)) val x = Inr m"
  proof
    fix x
    assume "x \<in> set dn"
    then have "length x = var_length n"
      using dn by (intro len) (simp add: domain_of_def)
    moreover have "length val = var_length var"
      using val by (rule len)
    ultimately show "\<exists>m. conflict (Some (i, j)) val x = Inr m"
      using ij by (simp add: conflict_def char_at_def)
  qed
  then have "\<exists>k. sum_results (conflict (Some (i, j)) val) dn = Inr k"
    by (rule sum_results_ex)
  then show "\<exists>k. neighbor_conflicts cw doms a var val n = Inr k"
    using ov dn by (simp add: neighbor_conflicts_def)
qed

lemma sort_by_key_sorted:
  assumes "sort_by_key key xs = Inr ys" and "\<And>x k. x \<in> set xs \<Longrightarrow> key x = Inr k \<Longrightarrow> k = g x"
  shows "mset ys = mset xs" and "sorted (map g ys)"
proof -
  from assms(1) obtain ks where ks: "map_result key xs = Inr ks"
    and ys: "ys = map fst (sort_key snd (zip xs ks))"
    by (auto simp: sort_by_key_def split: sum.splits)
  have len: "length xs = length ks"
    using map_result_length [OF ks] by simp
  have "mset ys = image_mset fst (mset (sort_key snd (zip xs ks)))"
    unfolding ys by simp
  also have "\<dots> = mset (map fst (zip xs ks))"
    by simp
  also have "\<dots> = mset xs"
    using len by simp
  finally show "mset ys = mset xs" .
  have keys: "\<forall>p\<in>set (zip xs ks). key (fst p) = Inr (snd p)"
    using ks by (rule map_result_keys)
  have "g (fst p) = snd p" if "p \<in> set (sort_key snd (zip xs ks))" for p
  proof -
    from that have p: "p \<in> set (zip xs ks)" by simp
    then have "fst p \<in> set xs"
      by (metis in_set_zipE prod.collapse)
    with keys p assms(2) [of "fst p" "snd p"] show ?thesis by auto
  qed
  then have "map g ys = map snd (sort_key snd (zip xs ks))"
    unfolding ys by (simp add: comp_def)
  then show "sorted (map g ys)"
    by (simp only: sorted_sort_key)
qed

text \<open>
  C8. Whenever \<^verbatim>\<open>order_domain_values\<close> returns, its result is a rearrangement of the
  variable's current domain, in ascending order of the conflict total of each word. It
  does return, raising nothing, when the variable belongs to the puzzle, every variable
  has a domain, the domains are node consistent and the offsets are in range. It reads
  the domains and the assignment and returns only the list.
\<close>

theorem order_domain_values_sorted:
  "(order_domain_values cw doms var a = Inr vals \<longrightarrow>
      mset vals = mset (domain_of doms var) \<and>
      sorted (map (conflict_total cw doms a var) vals)) \<and>
   (var \<in> set (variables cw) \<and> (\<forall>v\<in>set (variables cw). map_of doms v \<noteq> None) \<and>
    node_consistent doms \<and> offsets_in_range cw \<longrightarrow>
      (\<exists>sorted_vals. order_domain_values cw doms var a = Inr sorted_vals))"
proof (intro conjI impI)
  assume run: "order_domain_values cw doms var a = Inr vals"
  then obtain dv where dv: "map_of doms var = Some dv"
    and sorted_run: "sort_by_key (count_conflicts cw doms a var) dv = Inr vals"
    by (auto simp: order_domain_values_def split: option.splits)
  have dom: "domain_of doms var = dv"
    using dv by (simp add: domain_of_def)
  show "mset vals = mset (domain_of doms var)"
    unfolding dom using sorted_run count_conflicts_value by (rule sort_by_key_sorted(1))
  show "sorted (map (conflict_total cw doms a var) vals)"
    using sorted_run count_conflicts_value by (rule sort_by_key_sorted(2))
next
  assume pre: "var \<in> set (variables cw) \<and> (\<forall>v\<in>set (variables cw). map_of doms v \<noteq> None) \<and>
    node_consistent doms \<and> offsets_in_range cw"
  then obtain dv where dv: "map_of doms var = Some dv"
    by auto
  have dom: "domain_of doms var = dv"
    using dv by (simp add: domain_of_def)
  have "\<forall>val\<in>set dv. count_conflicts cw doms a var val =
      Inr (conflict_total cw doms a var val)"
  proof
    fix val
    assume "val \<in> set dv"
    then obtain k where k: "count_conflicts cw doms a var val = Inr k"
      using count_conflicts_total [of var cw doms val a] pre dom by auto
    with count_conflicts_value [OF k] show "count_conflicts cw doms a var val =
      Inr (conflict_total cw doms a var val)"
      by simp
  qed
  from sort_by_key_total [OF this] dv
  show "\<exists>sorted_vals. order_domain_values cw doms var a = Inr sorted_vals"
    by (auto simp: order_domain_values_def)
qed

theorem order_domain_values_sorted_witness:
  "order_domain_values cross [(slot_a, [''DOG'', ''CAT'', ''ACE'']), (slot_c, [''CAT'', ''ACE''])]
     slot_a [] = Inr [''CAT'', ''ACE'', ''DOG''] \<and>
   mset [''CAT'', ''ACE'', ''DOG''] =
     mset (domain_of [(slot_a, [''DOG'', ''CAT'', ''ACE'']), (slot_c, [''CAT'', ''ACE''])] slot_a) \<and>
   sorted (map (conflict_total cross
       [(slot_a, [''DOG'', ''CAT'', ''ACE'']), (slot_c, [''CAT'', ''ACE''])] [] slot_a)
     [''CAT'', ''ACE'', ''DOG'']) \<and>
   slot_a \<in> set (variables cross) \<and>
   list_all (\<lambda>v. map_of [(slot_a, [''DOG'', ''CAT'', ''ACE'']), (slot_c, [''CAT'', ''ACE''])] v \<noteq> None)
     (variables cross) \<and>
   node_consistent [(slot_a, [''DOG'', ''CAT'', ''ACE'']), (slot_c, [''CAT'', ''ACE''])] \<and>
   offsets_in_range cross"
proof -
  let ?d = "[(slot_a, [''DOG'', ''CAT'', ''ACE'']), (slot_c, [''CAT'', ''ACE''])]"
  have run: "order_domain_values cross ?d slot_a [] = Inr [''CAT'', ''ACE'', ''DOG'']"
    by code_simp
  have keys: "list_all (\<lambda>v. map_of ?d v \<noteq> None) (variables cross)"
    by code_simp
  have pre: "slot_a \<in> set (variables cross) \<and> node_consistent ?d \<and> offsets_in_range cross"
    by code_simp
  have "\<forall>v\<in>set (variables cross). map_of ?d v \<noteq> None"
    using keys by (simp add: list_all_iff)
  then show ?thesis
    using run pre keys
      order_domain_values_sorted [of cross ?d slot_a "[]" "[''CAT'', ''ACE'', ''DOG'']"]
    by blast
qed

section \<open>Puzzles with an emptied domain\<close>

text \<open>
  When the domain of some variable is empty after node consistency and AC-3, the search
  selects a variable with an empty domain first, finds no value to try and returns
  \<^verbatim>\<open>None\<close>. This covers a run of \<^verbatim>\<open>ac3\<close> that answers \<^verbatim>\<open>False\<close>, and a variable
  whose length is the length of no word.
\<close>

lemma shrinks_to_keys: "shrinks_to doms doms' \<Longrightarrow> map fst doms' = map fst doms"
  unfolding shrinks_to_def by (induction doms doms' rule: list_all2_induct) auto

lemma shrinks_to_domain_of:
  assumes "shrinks_to doms doms'"
  shows "set (domain_of doms' v) \<subseteq> set (domain_of doms v)"
proof -
  have "list_all2 (\<lambda>p q. fst q = fst p \<and> set (snd q) \<subseteq> set (snd p)) doms doms'"
    using assms by (simp add: shrinks_to_def case_prod_unfold)
  then show ?thesis
    unfolding domain_of_def
    by (induction doms doms' rule: list_all2_induct) auto
qed

lemma has_domain_iff: "map_of doms v \<noteq> None \<longleftrightarrow> v \<in> set (map fst doms)"
  by (simp add: map_of_eq_None_iff)

lemma backtrack_none_if_empty_domain:
  assumes keys: "\<forall>v\<in>set (variables cw). map_of doms v \<noteq> None"
    and empty: "\<exists>v\<in>set (variables cw). domain_of doms v = []"
  shows "backtrack cw doms [] = Inr None"
proof -
  from empty obtain v where v: "v \<in> set (variables cw)" and dv: "domain_of doms v = []"
    by blast
  have unassigned: "\<exists>v\<in>set (variables cw). map_of ([] :: assignment) v = None"
    using v by auto
  from select_minimal [OF keys unassigned] obtain var where
    sel: "select_unassigned_variable cw doms [] = Inr var"
    and var: "var \<in> set (variables cw)"
    and least: "\<forall>u\<in>set (variables cw). map_of ([] :: assignment) u = None \<longrightarrow>
       length (domain_of doms var) \<le> length (domain_of doms u)"
    by blast
  from least v dv have "domain_of doms var = []"
    by fastforce
  moreover from keys var obtain ws where "map_of doms var = Some ws"
    by auto
  ultimately have "map_of doms var = Some []"
    by (simp add: domain_of_def)
  then have ord: "order_domain_values cw doms var [] = Inr []"
    by (simp add: order_domain_values_def sort_by_key_def)
  have incomplete: "\<not> assignment_complete cw []"
    using v by (auto simp: assignment_complete_def)
  show ?thesis
    by (subst backtrack.simps) (simp add: incomplete sel ord)
qed

lemma solve_none_if_emptied_domain:
  assumes nc: "enforce_node_consistency (init_domains cw) = Inr doms1"
    and ac: "ac3 cw doms1 None = Inr (ok, doms2)"
    and empty: "\<exists>v\<in>set (variables cw). domain_of doms2 v = []"
  shows "solve cw = Inr None"
proof -
  have "shrinks_to (init_domains cw) doms1"
    using nc node_loop_shrinks by (simp add: enforce_node_consistency_def)
  moreover have "shrinks_to doms1 doms2"
    using ac ac3_loop_shrinks by (simp add: ac3_def)
  ultimately have "map fst doms2 = map fst (init_domains cw)"
    by (simp add: shrinks_to_keys)
  then have "map fst doms2 = variables cw"
    by (simp add: init_domains_def comp_def)
  then have "\<forall>v\<in>set (variables cw). map_of doms2 v \<noteq> None"
    by (metis has_domain_iff)
  then have "backtrack cw doms2 [] = Inr None"
    using empty by (rule backtrack_none_if_empty_domain)
  then show ?thesis
    using nc ac by (simp add: solve_def)
qed

lemma ac3_loop_false:
  "list_all (\<lambda>(a, b). a \<in> set (variables cw)) arcs \<Longrightarrow>
     ac3_loop cw arcs doms = Inr (False, doms') \<Longrightarrow>
     \<exists>v\<in>set (variables cw). domain_of doms' v = []"
proof (induction cw arcs doms rule: ac3_loop.induct)
  case (1 cw doms)
  then show ?case by simp
next
  case (2 cw x y arcs doms)
  have x: "x \<in> set (variables cw)" and rest_in: "list_all (\<lambda>(a, b). a \<in> set (variables cw)) arcs"
    using "2.prems"(1) by simp_all
  from "2.prems"(2) obtain revised d1 where rv: "revise cw doms x y = Inr (revised, d1)"
    by (auto split: sum.splits)
  show ?case
  proof (cases revised)
    case True
    with "2.prems"(2) rv obtain dx where dx: "map_of d1 x = Some dx"
      by (auto split: option.splits)
    show ?thesis
    proof (cases "dx = []")
      case True
      with "2.prems"(2) rv \<open>revised\<close> dx have "doms' = d1" by simp
      with dx True have "domain_of doms' x = []"
        by (simp add: domain_of_def)
      with x show ?thesis by blast
    next
      case False
      let ?arcs' = "arcs @ map (\<lambda>z. (z, x)) (filter (\<lambda>z. z \<noteq> y) (neighbors cw x))"
      have run: "ac3_loop cw ?arcs' d1 = Inr (False, doms')"
        using "2.prems"(2) rv \<open>revised\<close> dx False by simp
      have "list_all (\<lambda>(a, b). a \<in> set (variables cw)) ?arcs'"
        using rest_in by (auto simp: list_all_iff neighbors_def)
      then show ?thesis
        using "2.IH"(1) [OF rv refl \<open>revised\<close> dx False _ run] by blast
    qed
  next
    case False
    with "2.prems"(2) rv have run: "ac3_loop cw arcs d1 = Inr (False, doms')"
      by simp
    show ?thesis
      using "2.IH"(2) [OF rv refl False rest_in run] .
  qed
qed

lemma solve_none_if_ac3_fails:
  assumes nc: "enforce_node_consistency (init_domains cw) = Inr doms1"
    and ac: "ac3 cw doms1 None = Inr (False, doms2)"
  shows "solve cw = Inr None"
proof -
  let ?all = "[(x, y). x \<leftarrow> variables cw, y \<leftarrow> variables cw, x \<noteq> y]"
  have "list_all (\<lambda>(a, b). a \<in> set (variables cw)) ?all"
    by (auto simp: list_all_iff)
  moreover have "ac3_loop cw ?all doms1 = Inr (False, doms2)"
    using ac by (simp add: ac3_def)
  ultimately have "\<exists>v\<in>set (variables cw). domain_of doms2 v = []"
    by (rule ac3_loop_false)
  with nc ac show ?thesis
    by (rule solve_none_if_emptied_domain)
qed


lemma wf_domains_update:
  "wf_domains doms \<Longrightarrow> distinct ws \<Longrightarrow> wf_domains (AList.update x ws doms)"
proof (induction doms)
  case Nil
  then show ?case by (simp add: wf_domains_def)
next
  case (Cons p doms)
  obtain v vs where p: "p = (v, vs)" by (cases p)
  have tail: "wf_domains doms"
    using Cons.prems(1) by (simp add: wf_domains_def)
  show ?case
  proof (cases "v = x")
    case True
    with Cons.prems p show ?thesis by (simp add: wf_domains_def)
  next
    case False
    have "wf_domains (AList.update x ws doms)"
      using tail Cons.prems(2) by (rule Cons.IH)
    with False p Cons.prems(1) show ?thesis
      by (auto simp: wf_domains_def AList.dom_update)
  qed
qed

lemma revise_total:
  assumes ne: "x \<noteq> y" and wf: "wf_domains doms"
    and x: "x \<in> set (map fst doms)" and y: "y \<in> set (map fst doms)"
    and ov: "overlaps cw (x, y) \<noteq> None"
  shows "\<exists>r doms'. revise cw doms x y = Inr (r, doms') \<and> wf_domains doms'"
proof -
  from x obtain dx where dx: "map_of doms x = Some dx"
    by (metis has_domain_iff not_Some_eq)
  from y obtain dy where dy: "map_of doms y = Some dy"
    by (metis has_domain_iff not_Some_eq)
  from dx have "(x, dx) \<in> set doms" by (rule map_of_SomeD)
  with wf have ddx: "distinct dx"
    by (auto simp: wf_domains_def list_all_iff)
  from ov obtain o1 where o1: "overlaps cw (x, y) = Some o1" by auto
  show ?thesis
  proof (cases o1)
    case None
    with o1 have "revise cw doms x y = Inr (False, doms)"
      by (simp add: revise_def)
    with wf show ?thesis by blast
  next
    case (Some p)
    obtain i j where p: "p = (i, j)" by (cases p)
    let ?keep = "filter (\<lambda>w. w \<notin> set dx \<or> (\<exists>wy\<in>set dy. letters_agree i j w wy)) dx"
    have "revise cw doms x y =
        Inr (False \<or> (\<exists>w\<in>set dx. \<not> (\<exists>wy\<in>set dy. letters_agree i j w wy)),
             AList.update x ?keep doms)"
      using revise_loop_eq [OF ne dx dy ddx, of i j False] o1 Some p dx
      by (simp add: revise_def)
    moreover have "wf_domains (AList.update x ?keep doms)"
      using wf ddx by (intro wf_domains_update) simp_all
    ultimately show ?thesis by blast
  qed
qed

lemma ac3_loop_total:
  assumes "complete_overlaps cw"
  shows "wf_domains doms \<Longrightarrow> set (variables cw) \<subseteq> set (map fst doms) \<Longrightarrow>
     list_all (\<lambda>(a, b). a \<in> set (variables cw) \<and> b \<in> set (variables cw) \<and> a \<noteq> b) arcs \<Longrightarrow>
     \<exists>ok doms'. ac3_loop cw arcs doms = Inr (ok, doms')"
  using assms
proof (induction cw arcs doms rule: ac3_loop.induct)
  case (1 cw doms)
  have "ac3_loop cw [] doms = Inr (True, doms)" by simp
  then show ?case by blast
next
  case (2 cw x y arcs doms)
  have x: "x \<in> set (variables cw)" and y: "y \<in> set (variables cw)" and ne: "x \<noteq> y"
    and rest: "list_all (\<lambda>(a, b). a \<in> set (variables cw) \<and> b \<in> set (variables cw) \<and> a \<noteq> b) arcs"
    using "2.prems"(3) by simp_all
  have ov: "overlaps cw (x, y) \<noteq> None"
    using "2.prems"(4) x y ne by (simp add: complete_overlaps_def)
  from revise_total [OF ne "2.prems"(1) _ _ ov] x y "2.prems"(2)
  obtain r d1 where rv: "revise cw doms x y = Inr (r, d1)" and wf1: "wf_domains d1"
    by blast
  have keys1: "map fst d1 = map fst doms"
    using revise_keeps_others [OF rv] by simp
  then have sub1: "set (variables cw) \<subseteq> set (map fst d1)"
    using "2.prems"(2) by simp
  show ?case
  proof (cases r)
    case True
    from sub1 x obtain dx where dx: "map_of d1 x = Some dx"
      by (metis has_domain_iff not_Some_eq subsetD)
    show ?thesis
    proof (cases "dx = []")
      case True
      with rv \<open>r\<close> dx have "ac3_loop cw ((x, y) # arcs) doms = Inr (False, d1)"
        by simp
      then show ?thesis by blast
    next
      case False
      let ?arcs' = "arcs @ map (\<lambda>z. (z, x)) (filter (\<lambda>z. z \<noteq> y) (neighbors cw x))"
      have "list_all (\<lambda>(a, b). a \<in> set (variables cw) \<and> b \<in> set (variables cw) \<and> a \<noteq> b) ?arcs'"
        using rest x by (auto simp: list_all_iff neighbors_def)
      from "2.IH"(1) [OF rv refl \<open>r\<close> dx False wf1 sub1 this "2.prems"(4)]
      show ?thesis
        using rv \<open>r\<close> dx False by simp
    qed
  next
    case False
    from "2.IH"(2) [OF rv refl False wf1 sub1 rest "2.prems"(4)]
    show ?thesis
      using rv False by simp
  qed
qed

lemma solve_none_if_no_word_fits:
  assumes dv: "distinct (variables cw)" and dw: "distinct (words cw)"
    and table: "complete_overlaps cw"
    and unfit: "\<exists>v\<in>set (variables cw). \<forall>w\<in>set (words cw). length w \<noteq> var_length v"
  shows "solve cw = Inr None"
proof -
  let ?d1 = "map (\<lambda>(v, ws). (v, filter (\<lambda>w. length w = var_length v) ws)) (init_domains cw)"
  have wf0: "wf_domains (init_domains cw)"
    using dv dw by (simp add: wf_domains_def init_domains_def comp_def list_all_iff)
  have nc: "enforce_node_consistency (init_domains cw) = Inr ?d1"
    using wf0 by (rule enforce_node_consistency_eq)
  have wf1: "wf_domains ?d1"
    using wf0 by (rule wf_domains_filtered)
  have keys1: "map fst ?d1 = variables cw"
    by (simp add: init_domains_def comp_def)
  let ?all = "[(x, y). x \<leftarrow> variables cw, y \<leftarrow> variables cw, x \<noteq> y]"
  have arcs: "list_all (\<lambda>(a, b). a \<in> set (variables cw) \<and> b \<in> set (variables cw) \<and> a \<noteq> b) ?all"
    by (auto simp: list_all_iff)
  have sub: "set (variables cw) \<subseteq> set (map fst ?d1)"
    unfolding keys1 by simp
  from ac3_loop_total [OF table wf1 sub arcs]
  obtain ok doms2 where "ac3_loop cw ?all ?d1 = Inr (ok, doms2)"
    by blast
  then have ac: "ac3 cw ?d1 None = Inr (ok, doms2)"
    by (simp add: ac3_def)
  from unfit obtain v where v: "v \<in> set (variables cw)"
    and none: "\<forall>w\<in>set (words cw). length w \<noteq> var_length v"
    by blast
  have "map_of ?d1 v = Some (filter (\<lambda>w. length w = var_length v) (words cw))"
    using v by (simp add: init_domains_def comp_def map_of_map_restrict)
  moreover have "filter (\<lambda>w. length w = var_length v) (words cw) = []"
    using none by (simp add: filter_empty_conv)
  ultimately have "domain_of ?d1 v = []"
    by (simp add: domain_of_def)
  moreover have "shrinks_to ?d1 doms2"
    using ac ac3_loop_shrinks by (simp add: ac3_def)
  ultimately have "domain_of doms2 v = []"
    using shrinks_to_domain_of [of ?d1 doms2 v] by simp
  with v have "\<exists>v\<in>set (variables cw). domain_of doms2 v = []"
    by blast
  with nc ac show ?thesis
    by (rule solve_none_if_emptied_domain)
qed

section \<open>The search on a puzzle with one word for two slots\<close>

text \<open>
  C1. An assignment returned by \<^verbatim>\<open>solve\<close> should be complete and consistent. On
  \<open>two_rows\<close> (two slots of three cells that do not meet, the word list holding only
  CAT), \<^verbatim>\<open>solve\<close> returns the assignment that gives CAT to both slots, and
  \<^verbatim>\<open>consistent\<close> rejects that assignment because its words are not distinct:
  \<^verbatim>\<open>backtrack\<close> tests the assignment before it stores the new value, and returns a
  complete assignment without testing it.
\<close>

theorem solve_returns_repeated_word:
  "solve two_rows = Inr (Some [(slot_a, ''CAT''), (slot_b, ''CAT'')]) \<and>
   assignment_complete two_rows [(slot_a, ''CAT''), (slot_b, ''CAT'')] \<and>
   \<not> distinct (map snd [(slot_a, ''CAT''), (slot_b, ''CAT'')]) \<and>
   consistent two_rows [(slot_a, ''CAT''), (slot_b, ''CAT'')] = Inr False"
  by code_simp

text \<open>
  C2. A value whose addition makes the assignment inconsistent should never be stored.
  In the step of the search on \<open>two_rows\<close> where \<open>slot_a\<close> holds CAT, the selected
  variable is \<open>slot_b\<close> and its only candidate is CAT. The assignment with that entry
  added is inconsistent, the assignment without it is consistent, and the loop stores
  the entry and returns the assignment that contains it.
\<close>

theorem try_values_stores_inconsistent_value:
  "select_unassigned_variable two_rows [(slot_a, [''CAT'']), (slot_b, [''CAT''])]
     [(slot_a, ''CAT'')] = Inr slot_b \<and>
   order_domain_values two_rows [(slot_a, [''CAT'']), (slot_b, [''CAT''])] slot_b
     [(slot_a, ''CAT'')] = Inr [''CAT''] \<and>
   consistent two_rows [(slot_a, ''CAT'')] = Inr True \<and>
   consistent two_rows (AList.update slot_b ''CAT'' [(slot_a, ''CAT'')]) = Inr False \<and>
   try_values two_rows [(slot_a, [''CAT'']), (slot_b, [''CAT''])] slot_b [''CAT'']
     [(slot_a, ''CAT'')] = Inr (Some [(slot_a, ''CAT''), (slot_b, ''CAT'')])"
  by code_simp

text \<open>
  C3. An unsolvable puzzle should make \<^verbatim>\<open>solve\<close> return \<^verbatim>\<open>None\<close>. The puzzle
  \<open>two_rows\<close> is unsolvable: its word list holds one word, so the only complete
  assignment gives that word to both slots, and that assignment is inconsistent. There
  \<^verbatim>\<open>solve\<close> raises nothing and returns an assignment, not \<^verbatim>\<open>None\<close>. (The two
  cases that the claim singles out, a domain emptied by AC-3 and a length that no word
  has, do give \<^verbatim>\<open>None\<close>: lemmas \<open>solve_none_if_emptied_domain\<close>,
  \<open>solve_none_if_ac3_fails\<close> and \<open>solve_none_if_no_word_fits\<close>.)
\<close>

theorem solve_unsolvable_not_none:
  "variables two_rows = [slot_a, slot_b] \<and> words two_rows = [''CAT''] \<and>
   consistent two_rows [(slot_a, ''CAT''), (slot_b, ''CAT'')] = Inr False \<and>
   \<not> isl (solve two_rows) \<and>
   solve two_rows \<noteq> Inr None"
  by code_simp

end
